theory Spec2Isabelle
  imports Complex_Main "HOL-Library.Word"
begin

section \<open>The tile game of index.js\<close>

text \<open>
  The program is one script: it builds a board of tiles with one safe tile per row, hashes
  the secret path, and installs a click handler that walks the player over the rows and,
  after the last row, runs a proof pipeline of external calls.

  Numbers. JavaScript numbers are IEEE doubles. Every depth coordinate of the program is a
  multiple of 2.5 and is exact as a double; they are modelled as rationals. The literal 0.1
  is only ever compared with the absolute difference of two such coordinates, which is 0 or
  at least 2.5, so the comparison agrees with the comparison against the rational 1/10.
  \<open>Math.random()\<close> returns a double in [0, 1); the draws are a parameter
  \<open>rnd\<close>, the value of the i-th call (the board build makes one call per row), and
  a theorem that needs the range assumes it. The product with \<open>numCols\<close> is exact
  on doubles for the program's two columns; for other column counts the model takes the
  product of the rationals. BigInt values are \<open>int\<close>.

  The board build and the handler are written over \<open>numRows\<close> and
  \<open>numCols\<close>; the model takes both as parameters and keeps the program's values as
  constants.

  Strings. The strings the program builds itself (digits, hex, element values) are ASCII
  and are Isabelle strings. The text the user pastes is a sequence of UTF-16 code units,
  on which \<open>trim\<close> is modelled in full; \<open>toLowerCase\<close> is the engine's Unicode
  case conversion and is a parameter.
\<close>

subsection \<open>Utility functions\<close>

definition digitChar :: "nat \<Rightarrow> char" where
  "digitChar d = ''0123456789abcdefghijklmnopqrstuvwxyz'' ! d"

text \<open>
  \<open>toString(radix)\<close> of a non-negative integer. The program uses the radices 10 and
  16; JavaScript raises a RangeError for a radix outside 2..36, which no call here has.
\<close>

function toStringRadix :: "nat \<Rightarrow> nat \<Rightarrow> string" where
  "toStringRadix radix n =
     (if radix < 2 \<or> n < radix then [digitChar n]
      else toStringRadix radix (n div radix) @ [digitChar (n mod radix)])"
  by pat_completeness auto
termination
  by (relation "measure snd") auto

text \<open>\<open>v.toString()\<close> of a BigInt: decimal, with a sign.\<close>

definition bigint_toString :: "int \<Rightarrow> string" where
  "bigint_toString v =
     (if v < 0 then CHR ''-'' # toStringRadix 10 (nat (- v)) else toStringRadix 10 (nat v))"

definition padStart :: "nat \<Rightarrow> char \<Rightarrow> string \<Rightarrow> string" where
  "padStart n c s = replicate (n - length s) c @ s"

text \<open>\<open>toHex(array)\<close>, on the bytes of a Uint8Array.\<close>

definition toHex :: "8 word list \<Rightarrow> string" where
  "toHex array =
     ''0x'' @ concat (map (\<lambda>b. padStart 2 (CHR ''0'') (toStringRadix 16 (unat b))) array)"

subsection \<open>Tile grid\<close>

definition numRows :: nat where "numRows = 3"
definition numCols :: nat where "numCols = 2"
definition tileSize :: rat where "tileSize = 1"
definition tileGapZ :: rat where "tileGapZ = 3 / 2"
definition tileOffset :: rat where "tileOffset = 4 / 5"
definition tileOffsets :: "rat list" where "tileOffsets = [- tileOffset, tileOffset]"

text \<open>
  A tile mesh: its position (x is \<open>tileOffsets[j]\<close>, which is \<open>undefined\<close>, here
  \<open>None\<close>, beyond the array), \<open>userData.colIndex\<close>, \<open>userData.break\<close>
  (unset, which is falsy, until the row's \<open>forEach\<close> sets it) and the material's
  colour.
\<close>

record tile =
  position_x :: "rat option"
  position_z :: rat
  colIndex :: nat
  break :: bool
  color :: int

text \<open>The depth of row \<open>i\<close>: \<open>z = -i * (tileSize + tileGapZ)\<close>.\<close>

definition rowZ :: "nat \<Rightarrow> rat" where
  "rowZ i = - of_nat i * (tileSize + tileGapZ)"

definition newTile :: "rat \<Rightarrow> nat \<Rightarrow> tile" where
  "newTile z j =
     \<lparr>position_x = (if j < length tileOffsets then Some (tileOffsets ! j) else None),
      position_z = z, colIndex = j, break = False, color = 0x333333\<rparr>"

text \<open>\<open>safeIndex = Math.floor(Math.random() * numCols)\<close>.\<close>

definition safeIndex :: "nat \<Rightarrow> rat \<Rightarrow> int" where
  "safeIndex nC r = \<lfloor>r * of_nat nC\<rfloor>"

text \<open>One pass of the outer loop body: the row's tiles, with \<open>break\<close> set.\<close>

definition rowTiles :: "nat \<Rightarrow> nat \<Rightarrow> rat \<Rightarrow> tile list" where
  "rowTiles nC i r =
     (let z = rowZ i;
          row = map (newTile z) [0..<nC]
      in map (\<lambda>(j, t). t\<lparr>break := (int j \<noteq> safeIndex nC r)\<rparr>) (enumerate 0 row))"

text \<open>The outer loop \<open>for (let i = 0; i < numRows; i++)\<close>, with \<open>tiles\<close> and
  \<open>secretPath\<close> as accumulators.\<close>

function buildBoard ::
  "nat \<Rightarrow> nat \<Rightarrow> (nat \<Rightarrow> rat) \<Rightarrow> nat \<Rightarrow> tile list \<Rightarrow> int list \<Rightarrow> tile list \<times> int list"
where
  "buildBoard nR nC rnd i ts sp =
     (if i < nR
      then buildBoard nR nC rnd (Suc i) (ts @ rowTiles nC i (rnd i)) (sp @ [safeIndex nC (rnd i)])
      else (ts, sp))"
  by pat_completeness auto
termination
  by (relation "measure (\<lambda>(nR, nC, rnd, i, ts, sp). nR - i)") auto

subsection \<open>Session state\<close>

datatype shape = SymbolO | SymbolX

record symbol =
  sym_shape :: shape
  sym_color :: int
  sym_x :: "rat option"
  sym_y :: rat
  sym_z :: rat

datatype timer = GameOver | Victory

text \<open>
  The commitment is the object \<open>poseidon2Hash\<close> returns, an \<open>Fr\<close> of a library
  that is not part of the program. The program only ever calls \<open>toString\<close> on it; the
  model keeps of the object the string that call returns, whatever its notation.
\<close>

datatype fr = Fr (fr_toString: string)

text \<open>
  The script's globals. \<open>symbols\<close> are the meshes \<open>revealTile\<close> adds to the scene,
  \<open>cameraTweens\<close> the targets of the camera moves started by \<open>gsap.to\<close> and not
  yet completed, \<open>timeouts\<close> the callbacks given to \<open>setTimeout\<close>.
\<close>

record session =
  tiles :: "tile list"
  secretPath :: "int list"
  publicHash :: fr
  currentExpectedZ :: rat
  canClick :: bool
  userPath :: "int list"
  symbols :: "symbol list"
  cameraTweens :: "rat list"
  timeouts :: "timer list"

text \<open>The state after the top-level script has run; \<open>poseidon2Hash\<close> is external.\<close>

definition newSession ::
  "nat \<Rightarrow> nat \<Rightarrow> (nat \<Rightarrow> rat) \<Rightarrow> (int list \<Rightarrow> fr) \<Rightarrow> session" where
  "newSession nR nC rnd poseidon2Hash =
     (let (ts, sp) = buildBoard nR nC rnd 0 [] []
      in \<lparr>tiles = ts, secretPath = sp, publicHash = poseidon2Hash sp,
          currentExpectedZ = 0, canClick = True, userPath = [],
          symbols = [], cameraTweens = [], timeouts = []\<rparr>)"

subsection \<open>Reveal and the click handler\<close>

definition revealTile :: "nat \<Rightarrow> bool \<Rightarrow> session \<Rightarrow> session" where
  "revealTile k isSafe s =
     (let tile = tiles s ! k;
          symbolColor = (if isSafe then 0x008800 else 0x880000);
          sym = \<lparr>sym_shape = (if isSafe then SymbolO else SymbolX), sym_color = symbolColor,
                 sym_x = position_x tile, sym_y = 0 + 1 / 20, sym_z = position_z tile\<rparr>
      in s\<lparr>tiles := (tiles s)[k := tile\<lparr>color := (if isSafe then 0x00aa00 else 0xff0000)\<rparr>],
            symbols := symbols s @ [sym]\<rparr>)"

text \<open>
  The result of the raycast is the event's payload: the index in \<open>tiles\<close> of the first
  intersected mesh, or \<open>None\<close>. \<open>intersectObjects(tiles)\<close> returns meshes of
  \<open>tiles\<close> only; an index beyond the array stands for no intersection.
\<close>

definition intersects :: "session \<Rightarrow> nat option \<Rightarrow> nat option" where
  "intersects s hit =
     (case hit of None \<Rightarrow> None | Some k \<Rightarrow> if k < length (tiles s) then Some k else None)"

text \<open>\<open>tile.position.x < 0\<close>; \<open>undefined < 0\<close> is false.\<close>

definition lessZero :: "rat option \<Rightarrow> bool" where
  "lessZero x = (case x of None \<Rightarrow> False | Some v \<Rightarrow> v < 0)"

text \<open>\<open>lastZ = -(numRows - 1) * (tileSize + tileGapZ)\<close>, computed on numbers (no truncation
  at \<open>numRows = 0\<close>).\<close>

definition lastZ :: "nat \<Rightarrow> rat" where
  "lastZ nR = - (of_nat nR - 1) * (tileSize + tileGapZ)"

definition click :: "nat \<Rightarrow> session \<Rightarrow> nat option \<Rightarrow> session" where
  "click nR s hit =
     (if \<not> canClick s then s
      else case intersects s hit of
        None \<Rightarrow> s
      | Some k \<Rightarrow>
          let tile = tiles s ! k; z = position_z tile in
          if \<bar>z - currentExpectedZ s\<bar> > 1 / 10 then s
          else
            let direction = (if lessZero (position_x tile) then 0 else 1);
                s1 = s\<lparr>userPath := userPath s @ [direction], canClick := False\<rparr>;
                isSafe = \<not> break tile;
                s2 = revealTile k isSafe s1;
                s3 = s2\<lparr>cameraTweens := cameraTweens s2 @ [z + 6]\<rparr>
            in if \<not> isSafe then s3\<lparr>timeouts := timeouts s3 @ [GameOver]\<rparr>
               else
                 let s4 = s3\<lparr>currentExpectedZ := z - (tileSize + tileGapZ), canClick := True\<rparr>;
                     isLastTile = (\<bar>z - lastZ nR\<bar> < 1 / 10)
                 in if isLastTile then s4\<lparr>timeouts := timeouts s4 @ [Victory]\<rparr> else s4)"

text \<open>
  Events of a session: a pointer click, and the completion of the oldest camera move in
  flight (the program installs no callback on it).
\<close>

datatype event = Click "nat option" | TweenDone

fun step :: "nat \<Rightarrow> session \<Rightarrow> event \<Rightarrow> session" where
  "step nR s (Click hit) = click nR s hit"
| "step nR s TweenDone = s\<lparr>cameraTweens := tl (cameraTweens s)\<rparr>"

definition run :: "nat \<Rightarrow> session \<Rightarrow> event list \<Rightarrow> session" where
  "run nR s evs = foldl (step nR) s evs"

text \<open>A click is accepted when it passes the three guards of the handler.\<close>

definition accepted :: "session \<Rightarrow> nat option \<Rightarrow> bool" where
  "accepted s hit =
     (canClick s \<and>
      (case intersects s hit of
         None \<Rightarrow> False
       | Some k \<Rightarrow> \<not> \<bar>position_z (tiles s ! k) - currentExpectedZ s\<bar> > 1 / 10))"

definition failed :: "session \<Rightarrow> bool" where
  "failed s = (\<not> canClick s \<and> GameOver \<in> set (timeouts s))"

definition completed :: "session \<Rightarrow> bool" where
  "completed s = (canClick s \<and> Victory \<in> set (timeouts s))"

text \<open>
  The part of a tile that the board build fixes and no handler writes: position, column
  index and break flag.
\<close>

definition layout :: "session \<Rightarrow> (rat option \<times> rat \<times> nat \<times> bool) list" where
  "layout s = map (\<lambda>t. (position_x t, position_z t, colIndex t, break t)) (tiles s)"

text \<open>
  The player's walk over the safe tiles: row \<open>i\<close> occupies the indices
  \<open>i * numCols ..< (i + 1) * numCols\<close> of \<open>tiles\<close> (each row is pushed whole), so
  the safe tile of row \<open>i\<close> is at \<open>i * numCols + secretPath[i]\<close>.
\<close>

definition safeClicks :: "nat \<Rightarrow> int list \<Rightarrow> event list" where
  "safeClicks nC sp = map (\<lambda>(i, v). Click (Some (i * nC + nat v))) (enumerate 0 sp)"

subsection \<open>Proof pipeline\<close>

text \<open>
  The external calls of the pipeline are parameters: each returns a value or throws
  (\<open>Inl\<close>). Compiled program, witness and proof are byte strings. The two
  constructor calls between compilation and execution (\<open>new Noir\<close>,
  \<open>new UltraHonkBackend\<close>) are taken to return.
\<close>

datatype exn = Exn string

type_synonym program = "8 word list"
type_synonym witness = "8 word list"

record noirInputs =
  secret_path :: "string list"
  user_path :: "string list"
  public_hash :: string

record externals =
  getCircuit :: "exn + program"
  noir_execute :: "program \<Rightarrow> noirInputs \<Rightarrow> exn + witness"
  generateProof :: "program \<Rightarrow> witness \<Rightarrow> exn + 8 word list"
  digest :: "8 word list \<Rightarrow> exn + 8 word list"

datatype call =
    CallGetCircuit
  | CallExecute program noirInputs
  | CallGenerateProof program witness
  | CallDigest "8 word list"

definition mkNoirInputs :: "session \<Rightarrow> noirInputs" where
  "mkNoirInputs s =
     \<lparr>secret_path = map bigint_toString (secretPath s),
      user_path = map bigint_toString (userPath s),
      public_hash = fr_toString (publicHash s)\<rparr>"

text \<open>
  The body of the \<open>try\<close> block up to the digest: the external calls made, in order, and
  either the thrown value or the proof with its hex digest.
\<close>

definition proofPipeline ::
  "externals \<Rightarrow> session \<Rightarrow> call list \<times> (exn + 8 word list \<times> string)" where
  "proofPipeline ext s =
     (case getCircuit ext of
        Inl e \<Rightarrow> ([CallGetCircuit], Inl e)
      | Inr program \<Rightarrow>
          let noirInputs = mkNoirInputs s;
              c1 = [CallGetCircuit, CallExecute program noirInputs]
          in case noir_execute ext program noirInputs of
               Inl e \<Rightarrow> (c1, Inl e)
             | Inr witness \<Rightarrow>
                 let c2 = c1 @ [CallGenerateProof program witness]
                 in case generateProof ext program witness of
                      Inl e \<Rightarrow> (c2, Inl e)
                    | Inr proofBytes \<Rightarrow>
                        let c3 = c2 @ [CallDigest proofBytes]
                        in case digest ext proofBytes of
                             Inl e \<Rightarrow> (c3, Inl e)
                           | Inr proofHashBuffer \<Rightarrow>
                               (c3, Inr (proofBytes, toHex proofHashBuffer)))"

text \<open>
  The page, as far as the handlers write it. A listener list holds, per listener added,
  the value its closure captured. The verdict shown in \<open>verify-result\<close> and the alert
  texts are constructors.
\<close>

datatype verdict = ValidProofHash | InvalidProofHash

datatype alert = GameOverWrongTile | PasteTheProofHashFirst | ProofCopied | ProofHashCopied

record dom =
  victory_text_opacity :: rat
  proof_hash_value :: string
  copy_buttons_display :: string
  copy_proof :: "8 word list list"
  copy_proof_hash_bottom :: "string list"
  copy_proof_hash :: "string list"
  verify_btn :: "string list"
  verify_result :: "verdict option"
  console_error :: "exn list"
  alerts :: "alert list"

text \<open>
  The \<open>onComplete\<close> callback of the victory camera move, from the victory text on
  (light, background and fireworks before it are rendering only).
\<close>

definition onComplete :: "externals \<Rightarrow> session \<Rightarrow> dom \<Rightarrow> dom" where
  "onComplete ext s d =
     (let d1 = d\<lparr>victory_text_opacity := 1\<rparr>
      in case snd (proofPipeline ext s) of
           Inl e \<Rightarrow> d1\<lparr>console_error := console_error d1 @ [e]\<rparr>
         | Inr (proofBytes, proofHash) \<Rightarrow>
             d1\<lparr>proof_hash_value := proofHash,
                copy_buttons_display := ''flex'',
                copy_proof := copy_proof d1 @ [proofBytes],
                copy_proof_hash_bottom := copy_proof_hash_bottom d1 @ [proofHash],
                copy_proof_hash := copy_proof_hash d1 @ [proofHash],
                verify_btn := verify_btn d1 @ [proofHash]\<rparr>)"

subsection \<open>Timers and the victory camera move\<close>

text \<open>
  The page around a session: the document, the external calls made so far, how many of
  the \<open>setTimeout\<close> callbacks have run (all have the same delay, so they run in the
  order they were scheduled), the victory camera moves in flight (each carries the
  \<open>onComplete\<close> callback), and whether \<open>location.reload()\<close> has ended the page.

  The game-over callback alerts and reloads. The victory callback starts the victory
  camera move; when that move completes, \<open>onComplete\<close> runs. The callback reads the
  session (the two paths and the commitment) at one point only, when it assembles the
  inputs, and no event changes the session once the victory callback is scheduled, so it
  is run in one step.
\<close>

record page =
  game :: session
  document :: dom
  calls :: "call list"
  timersRun :: nat
  victoryTweens :: nat
  reloaded :: bool

datatype pageEvent = Game event | TimerFires | VictoryTweenDone

definition newPage ::
  "nat \<Rightarrow> nat \<Rightarrow> (nat \<Rightarrow> rat) \<Rightarrow> (int list \<Rightarrow> fr) \<Rightarrow> dom \<Rightarrow> page" where
  "newPage nR nC rnd poseidon2Hash d =
     \<lparr>game = newSession nR nC rnd poseidon2Hash, document = d, calls = [],
      timersRun = 0, victoryTweens = 0, reloaded = False\<rparr>"

fun pageStep :: "nat \<Rightarrow> externals \<Rightarrow> page \<Rightarrow> pageEvent \<Rightarrow> page" where
  "pageStep nR ext p (Game ev) =
     (if reloaded p then p else p\<lparr>game := step nR (game p) ev\<rparr>)"
| "pageStep nR ext p TimerFires =
     (if reloaded p \<or> \<not> timersRun p < length (timeouts (game p)) then p
      else case timeouts (game p) ! timersRun p of
          GameOver \<Rightarrow>
            p\<lparr>timersRun := Suc (timersRun p),
              document := (document p)\<lparr>alerts := alerts (document p) @ [GameOverWrongTile]\<rparr>,
              reloaded := True\<rparr>
        | Victory \<Rightarrow>
            p\<lparr>timersRun := Suc (timersRun p), victoryTweens := Suc (victoryTweens p)\<rparr>)"
| "pageStep nR ext p VictoryTweenDone =
     (if reloaded p \<or> victoryTweens p = 0 then p
      else p\<lparr>victoryTweens := victoryTweens p - 1,
             document := onComplete ext (game p) (document p),
             calls := calls p @ fst (proofPipeline ext (game p))\<rparr>)"

definition pageRun :: "nat \<Rightarrow> externals \<Rightarrow> page \<Rightarrow> pageEvent list \<Rightarrow> page" where
  "pageRun nR ext p evs = foldl (pageStep nR ext) p evs"

subsection \<open>The verify listener\<close>

text \<open>
  The text of the input field is a JavaScript string: a sequence of UTF-16 code units.
  The strings the program builds itself are ASCII; \<open>utf16\<close> gives their code units.
\<close>

type_synonym jsstring = "16 word list"

definition utf16 :: "string \<Rightarrow> jsstring" where
  "utf16 s = map (\<lambda>c. of_nat (of_char c)) s"

text \<open>
  \<open>String.prototype.trim\<close> strips white space and line terminators from both ends:
  tab, line feed, vertical tab, form feed, carriage return, space, no-break space, the
  other space separators (U+1680, U+2000 to U+200A, U+202F, U+205F, U+3000), the line and
  paragraph separators and the byte order mark.
\<close>

definition isWhiteSpace :: "16 word \<Rightarrow> bool" where
  "isWhiteSpace u =
     (u \<in> {0x0009, 0x000A, 0x000B, 0x000C, 0x000D, 0x0020, 0x00A0, 0x1680,
            0x2028, 0x2029, 0x202F, 0x205F, 0x3000, 0xFEFF} \<or>
      (0x2000 \<le> u \<and> u \<le> 0x200A))"

definition trim :: "jsstring \<Rightarrow> jsstring" where
  "trim s = rev (dropWhile isWhiteSpace (rev (dropWhile isWhiteSpace s)))"

text \<open>
  The click listener of \<open>verify-btn\<close>, with the \<open>proofHash\<close> of its closure and
  the value of the input field. \<open>String.prototype.toLowerCase\<close> is the engine's
  Unicode case conversion and is a parameter.
\<close>

definition verifyClick :: "(jsstring \<Rightarrow> jsstring) \<Rightarrow> string \<Rightarrow> jsstring \<Rightarrow> dom \<Rightarrow> dom" where
  "verifyClick toLowerCase proofHash inputValue d =
     (let proofInput = trim inputValue
      in if proofInput = [] then d\<lparr>alerts := alerts d @ [PasteTheProofHashFirst]\<rparr>
         else
           let valid = (toLowerCase proofInput = toLowerCase (utf16 proofHash))
           in d\<lparr>verify_result := Some (if valid then ValidProofHash else InvalidProofHash)\<rparr>)"

text \<open>
  Equality of two strings up to letter case, as the specification words it: the same
  length, and at every position the same character or the two cases of one letter. The
  displayed digest is made of digits, the letters a to f and x, so the letters in question
  are those of the Basic Latin block.
\<close>

definition isUpper :: "16 word \<Rightarrow> bool" where
  "isUpper u = (0x41 \<le> u \<and> u \<le> 0x5A)"

definition lowerUnit :: "16 word \<Rightarrow> 16 word" where
  "lowerUnit u = (if isUpper u then u + 0x20 else u)"

definition sameLetter :: "16 word \<Rightarrow> 16 word \<Rightarrow> bool" where
  "sameLetter c d = (c = d \<or> (isUpper c \<and> d = lowerUnit c) \<or> (isUpper d \<and> c = lowerUnit d))"

definition equalUpToCase :: "jsstring \<Rightarrow> jsstring \<Rightarrow> bool" where
  "equalUpToCase p q = list_all2 sameLetter p q"

text \<open>
  What the proofs use of the case conversion, both facts of the Unicode character
  database: on a string of Basic Latin (code units below 0x80) it lowers the letters A to
  Z and changes nothing else; and a string whose lower-case form consists of digest
  characters only is Basic Latin itself (no character outside the block has a lower-case
  form made of digits, a to f or x).
\<close>

definition isAscii :: "16 word \<Rightarrow> bool" where
  "isAscii u = (u < 0x80)"

definition isDigestUnit :: "16 word \<Rightarrow> bool" where
  "isDigestUnit u = (u \<in> set (utf16 ''0123456789abcdefx''))"

definition lowersBasicLatin :: "(jsstring \<Rightarrow> jsstring) \<Rightarrow> bool" where
  "lowersBasicLatin toLowerCase =
     ((\<forall>s. list_all isAscii s \<longrightarrow> toLowerCase s = map lowerUnit s) \<and>
      (\<forall>s. list_all isDigestUnit (toLowerCase s) \<longrightarrow> list_all isAscii s))"

text \<open>The conversion restricted to Basic Latin, for concrete inputs of that block.\<close>

definition basicLatinToLowerCase :: "jsstring \<Rightarrow> jsstring" where
  "basicLatinToLowerCase s = map lowerUnit s"

subsection \<open>A concrete session\<close>

text \<open>
  The end-to-end scenario of the specification, on the program's own constants: three rows,
  two columns, and draws of \<open>Math.random()\<close> that make the secret path [1, 0, 1]. The
  hash is external; the sum of the path, written as 0x and 64 hex digits, stands in for
  it. Then the page before any handler has written to it, a proof digest of 32 bytes, and a
  prover whose proof generation throws.
\<close>

definition scenarioRandom :: "nat \<Rightarrow> rat" where
  "scenarioRandom i = (if i = 1 then 0 else 1 / 2)"

definition scenarioHash :: "int list \<Rightarrow> fr" where
  "scenarioHash sp =
     Fr (''0x'' @ padStart 64 (CHR ''0'') (toStringRadix 16 (nat (sum_list sp))))"

definition scenarioSession :: session where
  "scenarioSession = newSession numRows numCols scenarioRandom scenarioHash"

definition scenarioDigest :: "8 word list" where
  "scenarioDigest =
     [0xAB, 0xAB, 0xAB, 0xAB, 0xAB, 0xAB, 0xAB, 0xAB, 0xAB, 0xAB, 0xAB, 0xAB, 0xAB, 0xAB, 0xAB, 0xAB,
      0xAB, 0xAB, 0xAB, 0xAB, 0xAB, 0xAB, 0xAB, 0xAB, 0xAB, 0xAB, 0xAB, 0xAB, 0xAB, 0xAB, 0xAB, 0xAB]"

definition blankDom :: dom where
  "blankDom =
     \<lparr>victory_text_opacity = 0, proof_hash_value = [], copy_buttons_display = ''none'',
      copy_proof = [], copy_proof_hash_bottom = [], copy_proof_hash = [], verify_btn = [],
      verify_result = None, console_error = [], alerts = []\<rparr>"

definition failingProver :: externals where
  "failingProver =
     \<lparr>getCircuit = Inr [1],
      noir_execute = (\<lambda>program noirInputs. Inr [2]),
      generateProof = (\<lambda>program witness. Inl (Exn ''generateProof'')),
      digest = (\<lambda>proofBytes. Inr scenarioDigest)\<rparr>"

text \<open>A prover that accepts a witness only when the two paths of the inputs agree.\<close>

definition checkingProver :: externals where
  "checkingProver =
     \<lparr>getCircuit = Inr [1],
      noir_execute = (\<lambda>program noirInputs.
         if secret_path noirInputs = user_path noirInputs then Inr [2]
         else Inl (Exn ''assertion'')),
      generateProof = (\<lambda>program witness. Inr [3]),
      digest = (\<lambda>proofBytes. Inr scenarioDigest)\<rparr>"

section \<open>Properties\<close>

declare buildBoard.simps [simp del]
declare toStringRadix.simps [simp del]

subsection \<open>The click handler, field by field\<close>

lemma click_rejected: "\<not> accepted s hit \<Longrightarrow> click nR s hit = s"
  by (auto simp: accepted_def click_def Let_def split: option.splits)

lemma accepted_SomeD:
  "accepted s hit \<Longrightarrow> \<exists>k. hit = Some k \<and> k < length (tiles s) \<and> canClick s \<and>
     \<bar>position_z (tiles s ! k) - currentExpectedZ s\<bar> \<le> 1 / 10"
  by (auto simp: accepted_def intersects_def split: option.splits if_splits)

lemma accepted_SomeI:
  "canClick s \<Longrightarrow> k < length (tiles s) \<Longrightarrow>
   \<bar>position_z (tiles s ! k) - currentExpectedZ s\<bar> \<le> 1 / 10 \<Longrightarrow> accepted s (Some k)"
  by (auto simp: accepted_def intersects_def)

lemma click_userPath:
  "accepted s (Some k) \<Longrightarrow>
   userPath (click nR s (Some k)) =
     userPath s @ [if lessZero (position_x (tiles s ! k)) then 0 else 1]"
  by (auto simp: accepted_def click_def intersects_def revealTile_def Let_def split: if_splits)

lemma click_tiles:
  "accepted s (Some k) \<Longrightarrow>
   tiles (click nR s (Some k)) =
     (tiles s)[k := (tiles s ! k)\<lparr>color := (if break (tiles s ! k) then 0xff0000 else 0x00aa00)\<rparr>]"
  by (auto simp: accepted_def click_def intersects_def revealTile_def Let_def split: if_splits)

lemma click_canClick:
  "accepted s (Some k) \<Longrightarrow> canClick (click nR s (Some k)) = (\<not> break (tiles s ! k))"
  by (auto simp: accepted_def click_def intersects_def revealTile_def Let_def split: if_splits)

lemma click_currentExpectedZ:
  "accepted s (Some k) \<Longrightarrow>
   currentExpectedZ (click nR s (Some k)) =
     (if break (tiles s ! k) then currentExpectedZ s
      else position_z (tiles s ! k) - (tileSize + tileGapZ))"
  by (auto simp: accepted_def click_def intersects_def revealTile_def Let_def split: if_splits)

lemma click_timeouts:
  "accepted s (Some k) \<Longrightarrow>
   timeouts (click nR s (Some k)) =
     timeouts s @
     (if break (tiles s ! k) then [GameOver]
      else if \<bar>position_z (tiles s ! k) - lastZ nR\<bar> < 1 / 10
           then [Victory] else [])"
  by (auto simp: accepted_def click_def intersects_def revealTile_def Let_def split: if_splits)

lemma click_cameraTweens:
  "accepted s (Some k) \<Longrightarrow>
   cameraTweens (click nR s (Some k)) = cameraTweens s @ [position_z (tiles s ! k) + 6]"
  by (auto simp: accepted_def click_def intersects_def revealTile_def Let_def split: if_splits)

lemma click_secret:
  "secretPath (click nR s hit) = secretPath s" "publicHash (click nR s hit) = publicHash s"
  by (auto simp: click_def intersects_def revealTile_def Let_def split: if_splits option.splits)

lemma click_layout: "layout (click nR s hit) = layout s"
proof (cases "accepted s hit")
  case False
  then show ?thesis by (simp add: click_rejected)
next
  case True
  then obtain k where k: "hit = Some k" "k < length (tiles s)"
    using accepted_SomeD by blast
  show ?thesis
    using True k by (simp add: layout_def click_tiles map_update) (simp add: list_eq_iff_nth_eq nth_list_update)
qed

lemma step_layout: "layout (step nR s ev) = layout s"
proof (cases ev)
  case (Click hit)
  then show ?thesis by (simp add: click_layout)
next
  case TweenDone
  then show ?thesis by (simp add: layout_def)
qed

lemma run_layout: "layout (run nR s evs) = layout s"
  unfolding run_def by (induction evs arbitrary: s) (simp_all add: step_layout)

lemma step_secret:
  "secretPath (step nR s ev) = secretPath s" "publicHash (step nR s ev) = publicHash s"
  by (cases ev; simp add: click_secret)+

lemma run_secret:
  "secretPath (run nR s evs) = secretPath s" "publicHash (run nR s evs) = publicHash s"
  unfolding run_def by (induction evs arbitrary: s; simp add: step_secret)+

subsection \<open>The board the build loop produces\<close>


lemma buildBoard_eq:
  "buildBoard nR nC rnd i ts sp =
     (ts @ concat (map (\<lambda>i. rowTiles nC i (rnd i)) [i..<nR]),
      sp @ map (\<lambda>i. safeIndex nC (rnd i)) [i..<nR])"
proof (induction nR nC rnd i ts sp rule: buildBoard.induct)
  case (1 nR nC rnd i ts sp)
  show ?case
  proof (cases "i < nR")
    case True
    then show ?thesis
      using "1.IH" by (subst buildBoard.simps) (simp add: upt_conv_Cons)
  next
    case False
    then show ?thesis by (subst buildBoard.simps) simp
  qed
qed

lemma enumerate_map_upt:
  "enumerate 0 (map f [0..<n]) = map (\<lambda>j. (j, f j)) [0..<n]"
  by (simp add: enumerate_eq_zip zip_map2 zip_same_conv_map)

lemma rowTiles_map:
  "rowTiles nC i r =
     map (\<lambda>j. (newTile (rowZ i) j)\<lparr>break := (int j \<noteq> safeIndex nC r)\<rparr>) [0..<nC]"
  by (simp add: rowTiles_def Let_def enumerate_map_upt)

lemma length_rowTiles: "length (rowTiles nC i r) = nC"
  by (simp add: rowTiles_map)

lemma concat_uniform_length:
  assumes "\<And>i. length (f i) = m"
  shows "length (concat (map f [0..<n])) = n * m"
  by (induction n) (simp_all add: assms)

lemma concat_uniform_nth:
  assumes "\<And>i. length (f i) = m" "i < n" "j < m"
  shows "concat (map f [0..<n]) ! (i * m + j) = f i ! j"
  using assms(2)
proof (induction n)
  case 0
  then show ?case by simp
next
  case (Suc n)
  have len: "length (concat (map f [0..<n])) = n * m"
    by (rule concat_uniform_length) (rule assms(1))
  show ?case
  proof (cases "i < n")
    case True
    then have "Suc i * m \<le> n * m" by (simp add: Suc_leI mult_le_mono1 del: mult_Suc)
    then have "i * m + j < n * m"
      using assms(3) by simp
    with True Suc.IH show ?thesis by (simp add: nth_append len)
  next
    case False
    with Suc.prems have "i = n" by simp
    then show ?thesis by (simp add: nth_append len)
  qed
qed

lemma tiles_newSession:
  "tiles (newSession nR nC rnd H) = concat (map (\<lambda>i. rowTiles nC i (rnd i)) [0..<nR])"
  by (simp add: newSession_def buildBoard_eq)

lemma secretPath_newSession:
  "secretPath (newSession nR nC rnd H) = map (\<lambda>i. safeIndex nC (rnd i)) [0..<nR]"
  by (simp add: newSession_def buildBoard_eq)

lemma fields_newSession:
  "publicHash (newSession nR nC rnd H) = H (secretPath (newSession nR nC rnd H))"
  "currentExpectedZ (newSession nR nC rnd H) = 0"
  "canClick (newSession nR nC rnd H)"
  "userPath (newSession nR nC rnd H) = []"
  "symbols (newSession nR nC rnd H) = []"
  "cameraTweens (newSession nR nC rnd H) = []"
  "timeouts (newSession nR nC rnd H) = []"
  by (simp_all add: newSession_def buildBoard_eq)

lemma length_tiles_newSession: "length (tiles (newSession nR nC rnd H)) = nR * nC"
  unfolding tiles_newSession by (rule concat_uniform_length) (rule length_rowTiles)

lemma tiles_newSession_nth:
  assumes "i < nR" "j < nC"
  shows "tiles (newSession nR nC rnd H) ! (i * nC + j) =
           (newTile (rowZ i) j)\<lparr>break := (int j \<noteq> safeIndex nC (rnd i))\<rparr>"
proof -
  have "tiles (newSession nR nC rnd H) ! (i * nC + j) = rowTiles nC i (rnd i) ! j"
    unfolding tiles_newSession
    by (rule concat_uniform_nth) (simp_all add: length_rowTiles assms)
  then show ?thesis using assms by (simp add: rowTiles_map)
qed

lemma tiles_newSession_cases:
  assumes "k < length (tiles (newSession nR nC rnd H))"
  obtains i j where "i < nR" "j < nC" "k = i * nC + j"
proof -
  from assms have k: "k < nR * nC" by (simp add: length_tiles_newSession)
  then have "0 < nC" by (cases nC) simp_all
  then have "k mod nC < nC" by simp
  moreover have "k div nC < nR" using k by (simp add: less_mult_imp_div_less)
  moreover have "k = (k div nC) * nC + k mod nC" by simp
  ultimately show ?thesis using that by blast
qed

lemma layout_nth:
  "k < length (tiles s) \<Longrightarrow>
   layout s ! k = (position_x (tiles s ! k), position_z (tiles s ! k),
                   colIndex (tiles s ! k), break (tiles s ! k))"
  by (simp add: layout_def)

lemma length_layout: "length (layout s) = length (tiles s)"
  by (simp add: layout_def)

subsection \<open>Depth arithmetic\<close>

lemma rowZ_eq: "rowZ i = - (5 / 2) * of_nat i"
  by (simp add: rowZ_def tileSize_def tileGapZ_def)

lemma rowZ_far:
  assumes "i \<noteq> r"
  shows "\<bar>rowZ i - rowZ r\<bar> > 1 / 10"
proof (cases "i < r")
  case True
  then have "Suc i \<le> r" by simp
  then have "(of_nat (Suc i) :: rat) \<le> of_nat r" by (simp only: of_nat_le_iff)
  then show ?thesis by (simp add: rowZ_eq)
next
  case False
  with assms have "Suc r \<le> i" by simp
  then have "(of_nat (Suc r) :: rat) \<le> of_nat i" by (simp only: of_nat_le_iff)
  then show ?thesis by (simp add: rowZ_eq)
qed

lemma rowZ_near_iff: "\<bar>rowZ i - rowZ r\<bar> \<le> 1 / 10 \<longleftrightarrow> i = r"
  using rowZ_far [of i r] by (cases "i = r") auto

lemma rowZ_Suc: "rowZ i - (tileSize + tileGapZ) = rowZ (Suc i)"
  by (simp add: rowZ_def algebra_simps)

lemma lastZ_rowZ: "lastZ (Suc n) = rowZ n"
  by (simp add: lastZ_def rowZ_def)

lemma rowZ_last_iff:
  assumes "i < nR"
  shows "\<bar>rowZ i - lastZ nR\<bar> < 1 / 10 \<longleftrightarrow> Suc i = nR"
proof -
  from assms obtain n where n: "nR = Suc n" by (cases nR) simp_all
  show ?thesis
    using rowZ_far [of i n] by (cases "i = n") (auto simp: n lastZ_rowZ)
qed

subsection \<open>Reachable sessions\<close>

lemma run_append: "run nR s (evs @ evs') = run nR (run nR s evs) evs'"
  by (simp add: run_def)

lemma run_snoc: "run nR s (evs @ [ev]) = step nR (run nR s evs) ev"
  by (simp add: run_def)

lemma run_Nil: "run nR s [] = s"
  by (simp add: run_def)

lemma run_Cons: "run nR s (ev # evs) = run nR (step nR s ev) evs"
  by (simp add: run_def)

lemma length_tiles_layout: "layout s = layout s' \<Longrightarrow> length (tiles s) = length (tiles s')"
  by (metis length_layout)

lemma board_tile:
  assumes "layout s = layout (newSession nR nC rnd H)" "k < length (tiles s)"
  obtains i j where "i < nR" "j < nC" "k = i * nC + j"
    "position_x (tiles s ! k) = (if j < length tileOffsets then Some (tileOffsets ! j) else None)"
    "position_z (tiles s ! k) = rowZ i"
    "colIndex (tiles s ! k) = j"
    "break (tiles s ! k) = (int j \<noteq> safeIndex nC (rnd i))"
proof -
  let ?s0 = "newSession nR nC rnd H"
  have len: "length (tiles s) = length (tiles ?s0)"
    using assms(1) by (rule length_tiles_layout)
  with assms(2) have k0: "k < length (tiles ?s0)" by simp
  then obtain i j where ij: "i < nR" "j < nC" "k = i * nC + j"
    by (rule tiles_newSession_cases)
  have "layout s ! k = layout ?s0 ! k" using assms(1) by simp
  then have "(position_x (tiles s ! k), position_z (tiles s ! k),
              colIndex (tiles s ! k), break (tiles s ! k)) =
             (position_x (tiles ?s0 ! k), position_z (tiles ?s0 ! k),
              colIndex (tiles ?s0 ! k), break (tiles ?s0 ! k))"
    using assms(2) k0 by (simp add: layout_nth)
  moreover have "tiles ?s0 ! k = (newTile (rowZ i) j)\<lparr>break := (int j \<noteq> safeIndex nC (rnd i))\<rparr>"
    using ij by (simp add: tiles_newSession_nth)
  ultimately have
    "position_x (tiles s ! k) = (if j < length tileOffsets then Some (tileOffsets ! j) else None)"
    "position_z (tiles s ! k) = rowZ i"
    "colIndex (tiles s ! k) = j"
    "break (tiles s ! k) = (int j \<noteq> safeIndex nC (rnd i))"
    by (simp_all add: newTile_def)
  with ij show ?thesis using that by blast
qed

lemma step_userPath_length:
  "length (userPath (step nR s ev)) = length (userPath s) + (case ev of Click hit \<Rightarrow> if accepted s hit then 1 else 0 | TweenDone \<Rightarrow> 0)"
proof (cases ev)
  case (Click hit)
  show ?thesis
  proof (cases "accepted s hit")
    case True
    then obtain k where "hit = Some k" using accepted_SomeD by blast
    with True Click show ?thesis by (simp add: click_userPath)
  next
    case False
    with Click show ?thesis by (simp add: click_rejected)
  qed
next
  case TweenDone
  then show ?thesis by simp
qed

lemma step_inv:
  assumes lay: "layout s = layout (newSession nR nC rnd H)"
    and len: "length (userPath s) \<le> nR"
    and cur: "canClick s \<Longrightarrow> currentExpectedZ s = rowZ (length (userPath s))"
  shows "length (userPath (step nR s ev)) \<le> nR \<and>
         (canClick (step nR s ev) \<longrightarrow>
            currentExpectedZ (step nR s ev) = rowZ (length (userPath (step nR s ev))))"
proof (cases ev)
  case TweenDone
  then show ?thesis using len cur by simp
next
  case (Click hit)
  show ?thesis
  proof (cases "accepted s hit")
    case False
    with Click show ?thesis using len cur by (simp add: click_rejected)
  next
    case True
    then obtain k where k: "hit = Some k" "k < length (tiles s)" "canClick s"
      "\<bar>position_z (tiles s ! k) - currentExpectedZ s\<bar> \<le> 1 / 10"
      using accepted_SomeD by blast
    from lay k(2) obtain i j where ij: "i < nR" "position_z (tiles s ! k) = rowZ i"
      by (rule board_tile)
    from k(4) have "\<bar>rowZ i - rowZ (length (userPath s))\<bar> \<le> 1 / 10"
      unfolding ij(2) cur [OF k(3)] .
    then have i: "i = length (userPath s)"
      by (simp only: rowZ_near_iff)
    have acc: "accepted s (Some k)" using True k(1) by simp
    show ?thesis
      using ij i Click k(1)
      by (simp add: click_userPath [OF acc] click_canClick [OF acc]
          click_currentExpectedZ [OF acc] rowZ_Suc)
  qed
qed

lemma run_inv:
  "length (userPath (run nR (newSession nR nC rnd H) evs)) \<le> nR \<and>
   (canClick (run nR (newSession nR nC rnd H) evs) \<longrightarrow>
      currentExpectedZ (run nR (newSession nR nC rnd H) evs) =
        rowZ (length (userPath (run nR (newSession nR nC rnd H) evs))))"
proof (induction evs rule: rev_induct)
  case Nil
  show ?case by (simp add: run_Nil fields_newSession rowZ_def)
next
  case (snoc ev evs)
  have "layout (run nR (newSession nR nC rnd H) evs) = layout (newSession nR nC rnd H)"
    by (rule run_layout)
  then show ?case
    unfolding run_snoc using snoc.IH by (intro step_inv) simp_all
qed

lemma board_tile_at:
  assumes "layout s = layout (newSession nR nC rnd H)" "i < nR" "j < nC"
  shows "i * nC + j < length (tiles s)"
    "position_x (tiles s ! (i * nC + j)) = (if j < length tileOffsets then Some (tileOffsets ! j) else None)"
    "position_z (tiles s ! (i * nC + j)) = rowZ i"
    "colIndex (tiles s ! (i * nC + j)) = j"
    "break (tiles s ! (i * nC + j)) = (int j \<noteq> safeIndex nC (rnd i))"
proof -
  let ?s0 = "newSession nR nC rnd H" and ?k = "i * nC + j"
  have "Suc i * nC \<le> nR * nC" using assms(2) by (simp add: Suc_leI mult_le_mono1 del: mult_Suc)
  then have k0: "?k < length (tiles ?s0)" using assms(3) by (simp add: length_tiles_newSession)
  then show k: "?k < length (tiles s)" using length_tiles_layout [OF assms(1)] by simp
  have "layout s ! ?k = layout ?s0 ! ?k" using assms(1) by simp
  then have "(position_x (tiles s ! ?k), position_z (tiles s ! ?k),
              colIndex (tiles s ! ?k), break (tiles s ! ?k)) =
             (position_x (tiles ?s0 ! ?k), position_z (tiles ?s0 ! ?k),
              colIndex (tiles ?s0 ! ?k), break (tiles ?s0 ! ?k))"
    using k k0 by (simp add: layout_nth)
  moreover have "tiles ?s0 ! ?k = (newTile (rowZ i) j)\<lparr>break := (int j \<noteq> safeIndex nC (rnd i))\<rparr>"
    using assms(2,3) by (rule tiles_newSession_nth)
  ultimately show
    "position_x (tiles s ! ?k) = (if j < length tileOffsets then Some (tileOffsets ! j) else None)"
    "position_z (tiles s ! ?k) = rowZ i"
    "colIndex (tiles s ! ?k) = j"
    "break (tiles s ! ?k) = (int j \<noteq> safeIndex nC (rnd i))"
    by (simp_all add: newTile_def)
qed

lemma direction_colIndex:
  assumes "j < length tileOffsets"
  shows "(if lessZero (Some (tileOffsets ! j)) then 0 else 1) = int j"
proof -
  from assms have "j = 0 \<or> j = 1" by (auto simp: tileOffsets_def)
  then show ?thesis by (auto simp: lessZero_def tileOffsets_def tileOffset_def)
qed

lemma safeIndex_range:
  assumes "0 \<le> r" "r < 1" "0 < nC"
  shows "0 \<le> safeIndex nC r" "safeIndex nC r < int nC"
proof -
  show "0 \<le> safeIndex nC r" using assms by (simp add: safeIndex_def)
  have "r * of_nat nC < of_nat nC" using assms by simp
  then show "safeIndex nC r < int nC"
    unfolding safeIndex_def by (simp add: floor_less_iff)
qed

lemma safeClicks_newSession:
  "safeClicks nC (secretPath (newSession nR nC rnd H)) =
     map (\<lambda>i. Click (Some (i * nC + nat (safeIndex nC (rnd i))))) [0..<nR]"
  by (simp add: safeClicks_def secretPath_newSession enumerate_map_upt)

lemma walk_prefix_state:
  fixes H :: "int list \<Rightarrow> fr"
  assumes nC: "0 < nC" and rnd: "\<forall>i<nR. 0 \<le> rnd i \<and> rnd i < 1" and r: "r \<le> nR"
  defines "s0 \<equiv> newSession nR nC rnd H"
  defines "s \<equiv> run nR s0 (map (\<lambda>i. Click (Some (i * nC + nat (safeIndex nC (rnd i))))) [0..<r])"
  shows "canClick s \<and> currentExpectedZ s = rowZ r \<and> length (userPath s) = r \<and>
         (nC \<le> length tileOffsets \<longrightarrow> userPath s = take r (secretPath s0)) \<and>
         timeouts s = (if r = nR \<and> 0 < r then [Victory] else [])"
  using r unfolding s_def
proof (induction r)
  case 0
  show ?case by (simp add: run_Nil s0_def fields_newSession rowZ_def)
next
  case (Suc r)
  let ?g = "\<lambda>i. Click (Some (i * nC + nat (safeIndex nC (rnd i))))"
  let ?s = "run nR s0 (map ?g [0..<r])"
  let ?j = "nat (safeIndex nC (rnd r))"
  let ?k = "r * nC + ?j"
  from Suc.prems have r: "r < nR" by simp
  with Suc.IH have IH: "canClick ?s" "currentExpectedZ ?s = rowZ r" "length (userPath ?s) = r"
    "nC \<le> length tileOffsets \<Longrightarrow> userPath ?s = take r (secretPath s0)"
    "timeouts ?s = []"
    by simp_all
  have rng: "0 \<le> safeIndex nC (rnd r)" "safeIndex nC (rnd r) < int nC"
    using rnd r nC by (simp_all add: safeIndex_range)
  then have j: "?j < nC" "int ?j = safeIndex nC (rnd r)" by simp_all
  have lay: "layout ?s = layout (newSession nR nC rnd H)"
    unfolding s0_def by (rule run_layout)
  note t = board_tile_at [OF lay r j(1)]
  have acc: "accepted ?s (Some ?k)"
    using IH(1) t(1) by (rule accepted_SomeI) (simp add: t(3) IH(2))
  have run: "run nR s0 (map ?g [0..<Suc r]) = click nR ?s (Some ?k)"
    by (simp add: run_snoc)
  have brk: "\<not> break (tiles ?s ! ?k)" using t(5) j(2) by simp
  have up: "userPath (click nR ?s (Some ?k)) = take (Suc r) (secretPath s0)"
    if "nC \<le> length tileOffsets"
  proof -
    from that j(1) have "?j < length tileOffsets" by simp
    then have "(if lessZero (position_x (tiles ?s ! ?k)) then 0 else 1) = int ?j"
      unfolding t(2) using direction_colIndex [of ?j] by simp
    moreover have "secretPath s0 ! r = safeIndex nC (rnd r)"
      using r by (simp add: s0_def secretPath_newSession)
    moreover have "r < length (secretPath s0)"
      using r by (simp add: s0_def secretPath_newSession)
    ultimately show ?thesis
      using IH(4) [OF that] j(2)
      by (simp add: click_userPath [OF acc] take_Suc_conv_app_nth)
  qed
  have tm: "timeouts (click nR ?s (Some ?k)) = (if Suc r = nR then [Victory] else [])"
    using brk IH(5) rowZ_last_iff [OF r]
    by (simp add: click_timeouts [OF acc] t(3))
  show ?case
    unfolding run
    using brk IH(3) up tm
    by (simp add: click_canClick [OF acc] click_currentExpectedZ [OF acc]
        click_userPath [OF acc] t(3) rowZ_Suc)
qed

subsection \<open>Locked and finished sessions, rows, pipeline\<close>

lemma click_locked: "\<not> canClick s \<Longrightarrow> click nR s hit = s"
  by (simp add: click_def)

lemma run_locked:
  assumes "\<not> canClick s"
  shows "\<not> canClick (run nR s evs) \<and> userPath (run nR s evs) = userPath s \<and>
         currentExpectedZ (run nR s evs) = currentExpectedZ s \<and>
         tiles (run nR s evs) = tiles s \<and> timeouts (run nR s evs) = timeouts s \<and>
         symbols (run nR s evs) = symbols s"
proof (induction evs rule: rev_induct)
  case Nil
  show ?case using assms by (simp add: run_Nil)
next
  case (snoc ev evs)
  then show ?case
    by (cases ev) (simp_all add: run_snoc click_locked)
qed

lemma click_past_board:
  assumes lay: "layout s = layout (newSession nR nC rnd H)"
    and cur: "currentExpectedZ s = rowZ nR"
  shows "click nR s hit = s"
proof (cases "accepted s hit")
  case False
  then show ?thesis by (rule click_rejected)
next
  case True
  then obtain k where k: "k < length (tiles s)"
    "\<bar>position_z (tiles s ! k) - currentExpectedZ s\<bar> \<le> 1 / 10"
    using accepted_SomeD by blast
  from lay k(1) obtain i j where i: "i < nR" "position_z (tiles s ! k) = rowZ i"
    by (rule board_tile)
  from k(2) have "i = nR" unfolding i(2) cur by (simp only: rowZ_near_iff)
  with i(1) show ?thesis by simp
qed

lemma run_past_board:
  assumes lay: "layout s = layout (newSession nR nC rnd H)"
    and cur: "currentExpectedZ s = rowZ nR"
  shows "userPath (run nR s evs) = userPath s \<and>
         currentExpectedZ (run nR s evs) = currentExpectedZ s \<and>
         tiles (run nR s evs) = tiles s \<and> canClick (run nR s evs) = canClick s \<and>
         timeouts (run nR s evs) = timeouts s"
proof (induction evs rule: rev_induct)
  case Nil
  show ?case by (simp add: run_Nil)
next
  case (snoc ev evs)
  have lay': "layout (run nR s evs) = layout (newSession nR nC rnd H)"
    using lay by (simp add: run_layout)
  have cur': "currentExpectedZ (run nR s evs) = rowZ nR"
    using snoc.IH cur by simp
  show ?case
  proof (cases ev)
    case (Click hit)
    then show ?thesis
      using snoc.IH by (simp add: run_snoc click_past_board [OF lay' cur'])
  next
    case TweenDone
    then show ?thesis using snoc.IH by (simp add: run_snoc)
  qed
qed

lemma rowZ_less: "i < r \<Longrightarrow> rowZ r < rowZ i"
  by (simp add: rowZ_eq)

lemma walk_whole_state:
  fixes H :: "int list \<Rightarrow> fr"
  assumes "0 < nR" "0 < nC" "\<forall>i<nR. 0 \<le> rnd i \<and> rnd i < 1"
    and s: "s = run nR (newSession nR nC rnd H) (safeClicks nC (secretPath (newSession nR nC rnd H)))"
  shows "canClick s" "currentExpectedZ s = rowZ nR" "length (userPath s) = nR"
    "nC \<le> length tileOffsets \<Longrightarrow> userPath s = secretPath (newSession nR nC rnd H)"
    "timeouts s = [Victory]"
    "layout s = layout (newSession nR nC rnd H)"
    "secretPath s = secretPath (newSession nR nC rnd H)"
    "publicHash s = H (secretPath (newSession nR nC rnd H))"
proof -
  have s': "s = run nR (newSession nR nC rnd H)
      (map (\<lambda>i. Click (Some (i * nC + nat (safeIndex nC (rnd i))))) [0..<nR])"
    by (simp only: s safeClicks_newSession)
  note w = walk_prefix_state [OF assms(2,3) order_refl, of H, folded s']
  show "canClick s" "currentExpectedZ s = rowZ nR" "length (userPath s) = nR"
    "timeouts s = [Victory]"
    using w assms(1) by simp_all
  show "userPath s = secretPath (newSession nR nC rnd H)" if "nC \<le> length tileOffsets"
    using w that by (simp add: secretPath_newSession)
  show "layout s = layout (newSession nR nC rnd H)"
    "secretPath s = secretPath (newSession nR nC rnd H)"
    "publicHash s = H (secretPath (newSession nR nC rnd H))"
    by (simp_all add: s run_layout run_secret fields_newSession)
qed

lemma pipeline_invokes_execute:
  "getCircuit ext = Inr program \<Longrightarrow>
   CallExecute program (mkNoirInputs s) \<in> set (fst (proofPipeline ext s))"
  by (simp add: proofPipeline_def Let_def split: sum.splits)

lemma filter_upt_eq: "m < n \<Longrightarrow> filter (\<lambda>j. j = m) [0..<n] = [m]"
proof (induction n)
  case 0
  then show ?case by simp
next
  case (Suc n)
  show ?case
  proof (cases "m < n")
    case True
    with Suc.IH show ?thesis by simp
  next
    case False
    with Suc.prems have m: "m = n" by simp
    have "filter (\<lambda>j. j = n) [0..<n] = []" by (simp add: filter_empty_conv)
    with m show ?thesis by simp
  qed
qed

lemma filter_upt_int:
  assumes "0 \<le> v" "v < int n"
  shows "filter (\<lambda>j. int j = v) [0..<n] = [nat v]"
proof -
  have "(\<lambda>j. int j = v) = (\<lambda>j. j = nat v)" using assms(1) by auto
  moreover have "nat v < n" using assms by simp
  ultimately show ?thesis by (simp add: filter_upt_eq)
qed

lemma rowZ_inj: "rowZ i = rowZ r \<longleftrightarrow> i = r"
  using rowZ_near_iff [of i r] rowZ_far [of i r] by (cases "i = r") auto

lemma rowTiles_filter_row:
  "filter (\<lambda>t. position_z t = rowZ i) (rowTiles nC i' r) = (if i' = i then rowTiles nC i' r else [])"
  by (simp add: rowTiles_map newTile_def filter_map comp_def rowZ_inj)

lemma concat_single_row:
  "i < n \<Longrightarrow> concat (map (\<lambda>i'. if i' = i then f i' else []) [0..<n]) = f i"
proof (induction n)
  case 0
  then show ?case by simp
next
  case (Suc n)
  show ?case
  proof (cases "i < n")
    case True
    with Suc.IH show ?thesis by simp
  next
    case False
    with Suc.prems have i: "i = n" by simp
    have "concat (map (\<lambda>i'. if i' = n then f i' else []) [0..<n]) = []" by simp
    with i show ?thesis by simp
  qed
qed

lemma row_of_board:
  assumes "i < nR"
  shows "filter (\<lambda>t. position_z t = rowZ i) (tiles (newSession nR nC rnd H)) =
         rowTiles nC i (rnd i)"
  using concat_single_row [OF assms, of "\<lambda>i'. rowTiles nC i' (rnd i')"]
  by (simp add: tiles_newSession filter_concat comp_def rowTiles_filter_row)

lemma safe_of_row:
  assumes "0 \<le> safeIndex nC r" "safeIndex nC r < int nC"
  shows "map colIndex (filter (\<lambda>t. \<not> break t) (rowTiles nC i r)) = [nat (safeIndex nC r)]"
  using filter_upt_int [OF assms]
  by (simp add: rowTiles_map newTile_def filter_map comp_def)

lemma pipeline_failure_cases:
  "snd (proofPipeline ext s) = Inl e \<longleftrightarrow>
     getCircuit ext = Inl e \<or>
     (\<exists>program. getCircuit ext = Inr program \<and>
        (noir_execute ext program (mkNoirInputs s) = Inl e \<or>
         (\<exists>witness. noir_execute ext program (mkNoirInputs s) = Inr witness \<and>
            (generateProof ext program witness = Inl e \<or>
             (\<exists>proofBytes. generateProof ext program witness = Inr proofBytes \<and>
                digest ext proofBytes = Inl e)))))"
  by (auto simp: proofPipeline_def Let_def split: sum.splits)

subsection \<open>The concrete session, evaluated\<close>

lemma upt_small: "[0..<3] = [0, 1, 2]" "[0..<2] = [0, 1]"
  by (simp_all add: upt_rec)

lemma scenario_tiles:
  "tiles scenarioSession =
     [\<lparr>position_x = Some (- (4 / 5)), position_z = 0, colIndex = 0, break = True, color = 0x333333\<rparr>,
      \<lparr>position_x = Some (4 / 5), position_z = 0, colIndex = 1, break = False, color = 0x333333\<rparr>,
      \<lparr>position_x = Some (- (4 / 5)), position_z = - (5 / 2), colIndex = 0, break = False, color = 0x333333\<rparr>,
      \<lparr>position_x = Some (4 / 5), position_z = - (5 / 2), colIndex = 1, break = True, color = 0x333333\<rparr>,
      \<lparr>position_x = Some (- (4 / 5)), position_z = - 5, colIndex = 0, break = True, color = 0x333333\<rparr>,
      \<lparr>position_x = Some (4 / 5), position_z = - 5, colIndex = 1, break = False, color = 0x333333\<rparr>]"
  by (simp add: scenarioSession_def scenarioRandom_def tiles_newSession numRows_def numCols_def
      upt_small rowTiles_map newTile_def rowZ_def tileSize_def tileGapZ_def tileOffsets_def
      tileOffset_def safeIndex_def)

lemma scenario_secretPath: "secretPath scenarioSession = [1, 0, 1]"
  by (simp add: scenarioSession_def scenarioRandom_def secretPath_newSession numRows_def
      numCols_def upt_small safeIndex_def)

lemmas scenario_fields =
  fields_newSession [of numRows numCols scenarioRandom scenarioHash, folded scenarioSession_def]

lemma scenario_clicks:
  "safeClicks numCols (secretPath scenarioSession) =
     [Click (Some 1), Click (Some 2), Click (Some 5)]"
  by (simp add: scenario_secretPath safeClicks_def numCols_def)

lemma scenario_hypotheses:
  "0 < numRows" "0 < numCols" "numCols \<le> length tileOffsets"
  "\<forall>i<numRows. 0 \<le> scenarioRandom i \<and> scenarioRandom i < 1"
  by (simp_all add: numRows_def numCols_def tileOffsets_def scenarioRandom_def)

lemmas click_eval =
  run_def click_def accepted_def intersects_def revealTile_def lessZero_def lastZ_def
  tileSize_def tileGapZ_def numRows_def Let_def scenario_tiles scenario_fields

lemma bigint_toString_small:
  "bigint_toString 0 = ''0''" "bigint_toString 1 = ''1''" "bigint_toString 2 = ''2''"
  by (simp_all add: bigint_toString_def toStringRadix.simps digitChar_def)

lemma hex_byte_AB: "padStart 2 (CHR ''0'') (toStringRadix 16 171) = ''ab''"
  by (simp add: toStringRadix.simps padStart_def digitChar_def)

lemma toHex_scenarioDigest:
  "toHex scenarioDigest = ''0xabababababababababababababababababababababababababababababababab''"
  by (simp add: toHex_def scenarioDigest_def hex_byte_AB)

subsection \<open>The walk hits the safe tiles; break tiles can be hit at every row\<close>

lemma safeClicks_designated:
  fixes H :: "int list \<Rightarrow> fr"
  assumes "0 < nC" "\<forall>i<nR. 0 \<le> rnd i \<and> rnd i < 1" "i < nR"
  defines "s0 \<equiv> newSession nR nC rnd H"
  shows "\<exists>k. safeClicks nC (secretPath s0) ! i = Click (Some k) \<and> k < length (tiles s0) \<and>
           position_z (tiles s0 ! k) = rowZ i \<and> \<not> break (tiles s0 ! k) \<and>
           int (colIndex (tiles s0 ! k)) = secretPath s0 ! i"
proof -
  let ?j = "nat (safeIndex nC (rnd i))"
  have rng: "0 \<le> safeIndex nC (rnd i)" "safeIndex nC (rnd i) < int nC"
    using assms(1,2,3) by (simp_all add: safeIndex_range)
  then have j: "?j < nC" "int ?j = safeIndex nC (rnd i)" by simp_all
  note t = board_tile_at [OF refl assms(3) j(1), of rnd H]
  have "safeClicks nC (secretPath s0) ! i = Click (Some (i * nC + ?j))"
    using assms(3) by (simp add: s0_def safeClicks_newSession)
  moreover have "secretPath s0 ! i = safeIndex nC (rnd i)"
    using assms(3) by (simp add: s0_def secretPath_newSession)
  ultimately show ?thesis
    using t j(2) by (simp add: s0_def)
qed

lemma break_tile_reachable_at_every_row:
  fixes H :: "int list \<Rightarrow> fr"
  assumes "0 < nC" "\<forall>i<nR. 0 \<le> rnd i \<and> rnd i < 1" "r < nR" "j < nC"
    and "int j \<noteq> safeIndex nC (rnd r)"
  defines "s \<equiv> run nR (newSession nR nC rnd H)
                  (map (\<lambda>i. Click (Some (i * nC + nat (safeIndex nC (rnd i))))) [0..<r])"
  shows "accepted s (Some (r * nC + j)) \<and> break (tiles s ! (r * nC + j))"
proof -
  from assms(3) have r: "r \<le> nR" by simp
  note w = walk_prefix_state [OF assms(1,2) r, of H, folded s_def]
  have lay: "layout s = layout (newSession nR nC rnd H)"
    unfolding s_def by (rule run_layout)
  note t = board_tile_at [OF lay assms(3,4)]
  have "accepted s (Some (r * nC + j))"
    using w t(1) by (intro accepted_SomeI) (simp_all add: t(3))
  then show ?thesis using t(5) assms(5) by simp
qed

text \<open>
  Beyond the two entries of \<open>tileOffsets\<close> a tile has no x position, and the handler
  appends 1 for it whatever its column: on a board of one row and three columns with safe
  column 2, the click on the safe tile appends 1.
\<close>

lemma third_column_appends_one:
  "accepted (newSession 1 3 (\<lambda>i. 2 / 3) scenarioHash) (Some 2) \<and>
   colIndex (tiles (newSession 1 3 (\<lambda>i. 2 / 3) scenarioHash) ! 2) = 2 \<and>
   secretPath (newSession 1 3 (\<lambda>i. 2 / 3) scenarioHash) = [2] \<and>
   userPath (click 1 (newSession 1 3 (\<lambda>i. 2 / 3) scenarioHash) (Some 2)) = [1]"
proof -
  have t: "tiles (newSession 1 3 (\<lambda>i. 2 / 3) scenarioHash) =
     [\<lparr>position_x = Some (- (4 / 5)), position_z = 0, colIndex = 0, break = True, color = 0x333333\<rparr>,
      \<lparr>position_x = Some (4 / 5), position_z = 0, colIndex = 1, break = True, color = 0x333333\<rparr>,
      \<lparr>position_x = None, position_z = 0, colIndex = 2, break = False, color = 0x333333\<rparr>]"
    by (simp add: tiles_newSession upt_small rowTiles_map newTile_def rowZ_def tileOffsets_def
        tileOffset_def safeIndex_def)
  have sp: "secretPath (newSession 1 3 (\<lambda>i. 2 / 3) scenarioHash) = [2]"
    by (simp add: secretPath_newSession safeIndex_def)
  from t sp show ?thesis
    by (simp add: click_def accepted_def intersects_def revealTile_def lessZero_def
        Let_def fields_newSession)
qed

subsection \<open>Case folding and the digest\<close>

lemma upper_bounds: "isUpper u \<Longrightarrow> 65 \<le> unat u \<and> unat u \<le> 90"
  by (simp add: isUpper_def word_le_nat_alt)

lemma unat_lowerUnit_upper: "isUpper u \<Longrightarrow> unat (u + 0x20) = unat u + 32"
  using upper_bounds [of u] by (simp add: unat_word_ariths)

lemma lowerUnit_not_upper: "isUpper u \<Longrightarrow> \<not> isUpper (lowerUnit u)"
  using unat_lowerUnit_upper [of u] upper_bounds [of u] upper_bounds [of "u + 0x20"]
  by (auto simp: lowerUnit_def)

lemma lowerUnit_eq_iff: "lowerUnit c = lowerUnit d \<longleftrightarrow> sameLetter c d"
proof (cases "isUpper c"; cases "isUpper d")
  assume "isUpper c" "isUpper d"
  then show ?thesis
    using lowerUnit_not_upper [of c] lowerUnit_not_upper [of d]
    by (auto simp: sameLetter_def lowerUnit_def)
next
  assume "isUpper c" "\<not> isUpper d"
  then show ?thesis by (auto simp: sameLetter_def lowerUnit_def)
next
  assume "\<not> isUpper c" "isUpper d"
  then show ?thesis by (auto simp: sameLetter_def lowerUnit_def)
next
  assume "\<not> isUpper c" "\<not> isUpper d"
  then show ?thesis by (auto simp: sameLetter_def lowerUnit_def)
qed

lemma map_lowerUnit_eq_iff: "map lowerUnit p = map lowerUnit q \<longleftrightarrow> equalUpToCase p q"
proof (induction p arbitrary: q)
  case Nil
  show ?case by (simp add: equalUpToCase_def)
next
  case (Cons c p)
  show ?case
  proof (cases q)
    case Nil
    then show ?thesis by (simp add: equalUpToCase_def)
  next
    case (Cons d q')
    with Cons.IH [of q'] show ?thesis
      by (simp add: equalUpToCase_def lowerUnit_eq_iff)
  qed
qed

lemma isAscii_unat: "isAscii u \<longleftrightarrow> unat u < 128"
  by (simp add: isAscii_def word_less_nat_alt)

lemma sameLetter_ascii: "sameLetter c d \<Longrightarrow> isAscii d \<Longrightarrow> isAscii c"
  using upper_bounds [of c] upper_bounds [of d] unat_lowerUnit_upper [of d]
  by (auto simp: sameLetter_def lowerUnit_def isAscii_unat)

lemma equalUpToCase_ascii:
  "equalUpToCase p q \<Longrightarrow> list_all isAscii q \<Longrightarrow> list_all isAscii p"
  unfolding equalUpToCase_def
  by (induction p q rule: list_all2_induct) (auto intro: sameLetter_ascii)

lemma digest_units:
  "utf16 ''0123456789abcdefx'' =
     [0x30, 0x31, 0x32, 0x33, 0x34, 0x35, 0x36, 0x37, 0x38, 0x39,
      0x61, 0x62, 0x63, 0x64, 0x65, 0x66, 0x78]"
  by (simp add: utf16_def)

lemma isDigestUnit_fixed: "isDigestUnit u \<Longrightarrow> isAscii u \<and> lowerUnit u = u"
  by (auto simp: isDigestUnit_def digest_units isAscii_def lowerUnit_def isUpper_def)

lemma digitChar_hex: "d < 16 \<Longrightarrow> digitChar d \<in> set ''0123456789abcdef''"
proof -
  assume d: "d < 16"
  have "''0123456789abcdefghijklmnopqrstuvwxyz'' = ''0123456789abcdef'' @ ''ghijklmnopqrstuvwxyz''"
    by simp
  then have "digitChar d = ''0123456789abcdef'' ! d"
    unfolding digitChar_def using d by (simp only: nth_append) simp
  moreover have "d < length ''0123456789abcdef''" using d by simp
  ultimately show ?thesis by (simp only: nth_mem)
qed

lemma toStringRadix_hex: "set (toStringRadix 16 n) \<subseteq> set ''0123456789abcdef''"
proof (induction "16 :: nat" n rule: toStringRadix.induct)
  case (1 n)
  show ?case
  proof (cases "n < 16")
    case True
    then show ?thesis
      using digitChar_hex [of n] by (subst toStringRadix.simps) simp
  next
    case False
    then show ?thesis
      using "1.hyps" digitChar_hex [of "n mod 16"]
      by (subst toStringRadix.simps) simp
  qed
qed

lemma set_padStart: "set (padStart n c s) \<subseteq> insert c (set s)"
  by (auto simp: padStart_def)

lemma toHex_chars: "set (toHex bytes) \<subseteq> set ''0123456789abcdefx''"
proof -
  define A where "A = set ''0123456789abcdef''"
  define B where "B = set ''0123456789abcdefx''"
  have AB: "A \<subseteq> B" and z: "CHR ''0'' \<in> B" and x: "CHR ''x'' \<in> B"
    by (simp_all add: A_def B_def)
  have byte: "set (padStart 2 (CHR ''0'') (toStringRadix 16 n)) \<subseteq> B" for n
    using set_padStart [of 2 "CHR ''0''" "toStringRadix 16 n"] toStringRadix_hex [of n, folded A_def]
      AB z by blast
  have "set (concat (map (\<lambda>b. padStart 2 (CHR ''0'') (toStringRadix 16 (unat b))) bytes)) \<subseteq> B"
    using byte by (induction bytes) auto
  moreover have "set ''0x'' \<subseteq> B" using z x by simp
  ultimately have "set (toHex bytes) \<subseteq> B"
    unfolding toHex_def by (simp only: set_append Un_least)
  then show ?thesis by (simp only: B_def)
qed

lemma toHex_digest_units: "list_all isDigestUnit (utf16 (toHex bytes))"
proof -
  have "isDigestUnit (of_nat (of_char c))" if "c \<in> set (toHex bytes)" for c
  proof -
    from that toHex_chars [of bytes] have "c \<in> set ''0123456789abcdefx''" by blast
    then have "of_nat (of_char c) \<in> (\<lambda>c. of_nat (of_char c)) ` set ''0123456789abcdefx''"
      by (rule imageI)
    then show ?thesis by (simp only: isDigestUnit_def utf16_def set_map)
  qed
  then show ?thesis by (simp add: list_all_iff utf16_def)
qed

lemma map_lowerUnit_digest: "list_all isDigestUnit xs \<Longrightarrow> map lowerUnit xs = xs"
  by (induction xs) (auto dest: isDigestUnit_fixed)

lemma digest_units_ascii: "list_all isDigestUnit xs \<Longrightarrow> list_all isAscii xs"
  by (induction xs) (auto dest: isDigestUnit_fixed)

lemma lowersBasicLatinD:
  assumes "lowersBasicLatin toLowerCase"
  shows "list_all isAscii s \<Longrightarrow> toLowerCase s = map lowerUnit s"
    and "list_all isDigestUnit (toLowerCase s) \<Longrightarrow> list_all isAscii s"
  using assms unfolding lowersBasicLatin_def by blast+

lemma lower_eq_digest_iff:
  assumes "lowersBasicLatin toLowerCase"
  shows "toLowerCase p = toLowerCase (utf16 (toHex bytes)) \<longleftrightarrow>
         equalUpToCase p (utf16 (toHex bytes))"
proof
  let ?h = "utf16 (toHex bytes)"
  have d: "list_all isDigestUnit ?h" by (rule toHex_digest_units)
  then have a: "list_all isAscii ?h" by (rule digest_units_ascii)
  have lh: "toLowerCase ?h = map lowerUnit ?h"
    using a by (rule lowersBasicLatinD(1) [OF assms])
  have lh': "toLowerCase ?h = ?h"
    using lh d by (simp only: map_lowerUnit_digest)
  {
    assume eq: "toLowerCase p = toLowerCase ?h"
    then have "list_all isDigestUnit (toLowerCase p)"
      using d by (simp only: lh')
    then have "list_all isAscii p" by (rule lowersBasicLatinD(2) [OF assms])
    then have "toLowerCase p = map lowerUnit p" by (rule lowersBasicLatinD(1) [OF assms])
    with eq lh have "map lowerUnit p = map lowerUnit ?h" by simp
    then show "equalUpToCase p ?h" by (simp only: map_lowerUnit_eq_iff)
  }
  {
    assume eq: "equalUpToCase p ?h"
    then have "list_all isAscii p" using a by (rule equalUpToCase_ascii)
    then have "toLowerCase p = map lowerUnit p" by (rule lowersBasicLatinD(1) [OF assms])
    moreover from eq have "map lowerUnit p = map lowerUnit ?h" by (simp only: map_lowerUnit_eq_iff)
    ultimately show "toLowerCase p = toLowerCase ?h" using lh by simp
  }
qed

lemma lowersBasicLatin_basic: "lowersBasicLatin basicLatinToLowerCase"
proof -
  have "isAscii u" if "isDigestUnit (lowerUnit u)" for u
  proof (cases "isUpper u")
    case True
    then show ?thesis using upper_bounds [of u] by (simp add: isAscii_unat)
  next
    case False
    with that show ?thesis by (auto simp: lowerUnit_def dest: isDigestUnit_fixed)
  qed
  then show ?thesis
    by (auto simp: lowersBasicLatin_def basicLatinToLowerCase_def list_all_iff)
qed

lemma utf16_scenarioDigest:
  "utf16 (toHex scenarioDigest) =
     [0x30, 0x78,
      0x61, 0x62, 0x61, 0x62, 0x61, 0x62, 0x61, 0x62, 0x61, 0x62, 0x61, 0x62, 0x61, 0x62, 0x61, 0x62,
      0x61, 0x62, 0x61, 0x62, 0x61, 0x62, 0x61, 0x62, 0x61, 0x62, 0x61, 0x62, 0x61, 0x62, 0x61, 0x62,
      0x61, 0x62, 0x61, 0x62, 0x61, 0x62, 0x61, 0x62, 0x61, 0x62, 0x61, 0x62, 0x61, 0x62, 0x61, 0x62,
      0x61, 0x62, 0x61, 0x62, 0x61, 0x62, 0x61, 0x62, 0x61, 0x62, 0x61, 0x62, 0x61, 0x62, 0x61, 0x62]"
  by (simp add: toHex_scenarioDigest utf16_def)

lemma scenario_paste:
  "trim (0x00A0 # map (\<lambda>u. if u = 0x62 then 0x42 else u) (utf16 (toHex scenarioDigest)) @ [0x2028]) =
     map (\<lambda>u. if u = 0x62 then 0x42 else u) (utf16 (toHex scenarioDigest))"
  "map (\<lambda>u. if u = 0x62 then 0x42 else u) (utf16 (toHex scenarioDigest)) \<noteq> []"
  "equalUpToCase (map (\<lambda>u. if u = 0x62 then 0x42 else u) (utf16 (toHex scenarioDigest)))
      (utf16 (toHex scenarioDigest))"
  "trim [0x00A0, 0xFEFF] = []"
  "trim (0x20 # utf16 (toHex scenarioDigest)) = utf16 (toHex scenarioDigest)"
  "utf16 (toHex scenarioDigest) \<noteq> []"
  "trim [] = []"
  by (simp_all add: utf16_scenarioDigest trim_def isWhiteSpace_def equalUpToCase_def
      sameLetter_def isUpper_def lowerUnit_def)

lemma basicLatin_digest:
  "basicLatinToLowerCase (utf16 (toHex scenarioDigest)) = utf16 (toHex scenarioDigest)"
  unfolding basicLatinToLowerCase_def
  by (rule map_lowerUnit_digest) (rule toHex_digest_units)

subsection \<open>Sessions with the victory callback scheduled\<close>

lemma step_timeouts_mono:
  assumes x: "x \<in> set (timeouts s)"
  shows "x \<in> set (timeouts (step nR s ev))"
proof (cases ev)
  case TweenDone
  with x show ?thesis by simp
next
  case (Click hit)
  show ?thesis
  proof (cases "accepted s hit")
    case False
    with Click x show ?thesis by (simp add: click_rejected)
  next
    case True
    then obtain k where "hit = Some k" using accepted_SomeD by blast
    with True Click x show ?thesis by (simp add: click_timeouts)
  qed
qed

lemma run_victory_inv:
  "Victory \<in> set (timeouts (run nR (newSession nR nC rnd H) evs)) \<Longrightarrow>
   canClick (run nR (newSession nR nC rnd H) evs) \<and>
   currentExpectedZ (run nR (newSession nR nC rnd H) evs) = rowZ nR"
proof (induction evs rule: rev_induct)
  case Nil
  then show ?case by (simp add: run_Nil fields_newSession)
next
  case (snoc ev evs)
  let ?s = "run nR (newSession nR nC rnd H) evs"
  have lay: "layout ?s = layout (newSession nR nC rnd H)" by (rule run_layout)
  show ?case
  proof (cases "Victory \<in> set (timeouts ?s)")
    case True
    with snoc.IH have c: "canClick ?s" "currentExpectedZ ?s = rowZ nR" by simp_all
    show ?thesis
    proof (cases ev)
      case (Click hit)
      then show ?thesis using c by (simp add: run_snoc click_past_board [OF lay c(2)])
    next
      case TweenDone
      then show ?thesis using c by (simp add: run_snoc)
    qed
  next
    case False
    show ?thesis
    proof (cases ev)
      case TweenDone
      with snoc.prems False show ?thesis by (simp add: run_snoc)
    next
      case (Click hit)
      show ?thesis
      proof (cases "accepted ?s hit")
        case False
        with Click snoc.prems \<open>Victory \<notin> set (timeouts ?s)\<close> show ?thesis
          by (simp add: run_snoc click_rejected)
      next
        case True
        then obtain k where k: "hit = Some k" "k < length (tiles ?s)"
          using accepted_SomeD by blast
        have acc: "accepted ?s (Some k)" using True k(1) by simp
        from lay k(2) obtain i j where i: "i < nR" "position_z (tiles ?s ! k) = rowZ i"
          by (rule board_tile)
        from snoc.prems Click k(1) \<open>Victory \<notin> set (timeouts ?s)\<close>
        have v: "\<not> break (tiles ?s ! k)" "\<bar>rowZ i - lastZ nR\<bar> < 1 / 10"
          by (auto simp: run_snoc click_timeouts [OF acc] i(2) split: if_splits)
        from v(2) have "Suc i = nR" by (simp only: rowZ_last_iff [OF i(1)])
        then show ?thesis
          using v(1) Click k(1)
          by (simp add: run_snoc click_canClick [OF acc] click_currentExpectedZ [OF acc]
              i(2) rowZ_Suc)
      qed
    qed
  qed
qed

lemma run_prefix_inv:
  assumes nC: "nC \<le> length tileOffsets"
  shows "canClick (run nR (newSession nR nC rnd H) evs) \<Longrightarrow>
         userPath (run nR (newSession nR nC rnd H) evs) =
           take (length (userPath (run nR (newSession nR nC rnd H) evs)))
             (secretPath (newSession nR nC rnd H))"
proof (induction evs rule: rev_induct)
  case Nil
  show ?case by (simp add: run_Nil fields_newSession)
next
  case (snoc ev evs)
  let ?new = "newSession nR nC rnd H"
  let ?s = "run nR ?new evs"
  have lay: "layout ?s = layout ?new" by (rule run_layout)
  show ?case
  proof (cases ev)
    case TweenDone
    with snoc show ?thesis by (simp add: run_snoc)
  next
    case (Click hit)
    show ?thesis
    proof (cases "accepted ?s hit")
      case False
      with Click snoc show ?thesis by (simp add: run_snoc click_rejected)
    next
      case True
      then obtain k where k: "hit = Some k" "k < length (tiles ?s)" "canClick ?s"
        "\<bar>position_z (tiles ?s ! k) - currentExpectedZ ?s\<bar> \<le> 1 / 10"
        using accepted_SomeD by blast
      have acc: "accepted ?s (Some k)" using True k(1) by simp
      from lay k(2) obtain i j where t: "i < nR" "j < nC"
        "position_x (tiles ?s ! k) = (if j < length tileOffsets then Some (tileOffsets ! j) else None)"
        "position_z (tiles ?s ! k) = rowZ i"
        "break (tiles ?s ! k) = (int j \<noteq> safeIndex nC (rnd i))"
        by (rule board_tile)
      have cur: "currentExpectedZ ?s = rowZ (length (userPath ?s))"
        using run_inv [of nR nC rnd H evs] k(3) by simp
      from k(4) have i: "i = length (userPath ?s)"
        unfolding t(4) cur by (simp only: rowZ_near_iff)
      from snoc.prems Click k(1) have safe: "\<not> break (tiles ?s ! k)"
        by (simp add: run_snoc click_canClick [OF acc])
      with t(5) have j: "int j = safeIndex nC (rnd i)" by simp
      from t(2) nC have "j < length tileOffsets" by simp
      then have dir: "(if lessZero (position_x (tiles ?s ! k)) then 0 else 1) = int j"
        unfolding t(3) using direction_colIndex [of j] by simp
      have sp: "secretPath ?new ! i = safeIndex nC (rnd i)" "i < length (secretPath ?new)"
        using t(1) by (simp_all add: secretPath_newSession)
      have "userPath ?s = take i (secretPath ?new)"
        using snoc.IH k(3) i by simp
      then show ?thesis
        using Click k(1) dir j sp i
        by (simp add: run_snoc click_userPath [OF acc] take_Suc_conv_app_nth)
    qed
  qed
qed

lemma run_victory_path:
  assumes nC: "nC \<le> length tileOffsets"
    and v: "Victory \<in> set (timeouts (run nR (newSession nR nC rnd H) evs))"
  shows "completed (run nR (newSession nR nC rnd H) evs)"
    "userPath (run nR (newSession nR nC rnd H) evs) = secretPath (newSession nR nC rnd H)"
proof -
  let ?new = "newSession nR nC rnd H"
  let ?s = "run nR ?new evs"
  from run_victory_inv [OF v] have c: "canClick ?s" "currentExpectedZ ?s = rowZ nR" by simp_all
  with v show "completed ?s" by (simp add: completed_def)
  from run_inv [of nR nC rnd H evs] c have "rowZ (length (userPath ?s)) = rowZ nR" by simp
  then have "length (userPath ?s) = nR" by (simp only: rowZ_inj)
  with run_prefix_inv [OF nC c(1)] show "userPath ?s = secretPath ?new"
    by (simp add: secretPath_newSession)
qed

subsection \<open>The page\<close>

lemma pageRun_Nil: "pageRun nR ext p [] = p"
  by (simp add: pageRun_def)

lemma pageRun_snoc: "pageRun nR ext p (evs @ [ev]) = pageStep nR ext (pageRun nR ext p evs) ev"
  by (simp add: pageRun_def)

lemma pageRun_append:
  "pageRun nR ext p (evs @ evs') = pageRun nR ext (pageRun nR ext p evs) evs'"
  by (simp add: pageRun_def)

lemma pageRun_Game:
  "\<not> reloaded p \<Longrightarrow> pageRun nR ext p (map Game evs) = p\<lparr>game := run nR (game p) evs\<rparr>"
proof (induction evs rule: rev_induct)
  case Nil
  then show ?case by (simp add: pageRun_Nil run_Nil)
next
  case (snoc ev evs)
  then show ?case by (simp add: pageRun_snoc run_snoc)
qed

lemma proofPipeline_inputs:
  "mkNoirInputs s = mkNoirInputs s' \<Longrightarrow> proofPipeline ext s = proofPipeline ext s'"
  by (simp add: proofPipeline_def Let_def split: sum.splits)

lemma onComplete_inputs:
  "mkNoirInputs s = mkNoirInputs s' \<Longrightarrow> onComplete ext s d = onComplete ext s' d"
  by (simp add: onComplete_def proofPipeline_inputs [of s s'])

lemma pipeline_first_call:
  "fst (proofPipeline ext s) \<noteq> []" "hd (fst (proofPipeline ext s)) = CallGetCircuit"
  by (simp_all add: proofPipeline_def Let_def split: sum.splits)

lemma pipeline_second_call:
  "getCircuit ext = Inr program \<Longrightarrow>
   take 2 (fst (proofPipeline ext s)) = [CallGetCircuit, CallExecute program (mkNoirInputs s)]"
  by (simp add: proofPipeline_def Let_def split: sum.splits)

lemma pipeline_execute_inputs:
  "CallExecute program i \<in> set (fst (proofPipeline ext s)) \<Longrightarrow> i = mkNoirInputs s"
  by (auto simp: proofPipeline_def Let_def split: sum.splits)

lemma pipeline_success:
  assumes "getCircuit ext = Inr program"
    "noir_execute ext program (mkNoirInputs s) = Inr witness"
    "generateProof ext program witness = Inr proofBytes"
    "digest ext proofBytes = Inr proofHashBuffer"
  shows "proofPipeline ext s =
           ([CallGetCircuit, CallExecute program (mkNoirInputs s),
             CallGenerateProof program witness, CallDigest proofBytes],
            Inr (proofBytes, toHex proofHashBuffer))"
  using assms by (simp add: proofPipeline_def Let_def)

lemma step_frozen_inputs:
  assumes "Victory \<in> set (timeouts (run nR (newSession nR nC rnd H) evs))"
  shows "mkNoirInputs (step nR (run nR (newSession nR nC rnd H) evs) ev) =
         mkNoirInputs (run nR (newSession nR nC rnd H) evs)"
proof -
  let ?s = "run nR (newSession nR nC rnd H) evs"
  have lay: "layout ?s = layout (newSession nR nC rnd H)" by (rule run_layout)
  from run_victory_inv [OF assms] have cur: "currentExpectedZ ?s = rowZ nR" by simp
  show ?thesis
  proof (cases ev)
    case (Click hit)
    then show ?thesis by (simp add: click_past_board [OF lay cur])
  next
    case TweenDone
    then show ?thesis by (simp add: mkNoirInputs_def)
  qed
qed

lemma page_inv:
  "(\<exists>sevs. game (pageRun nR ext (newPage nR nC rnd H d) evs) =
            run nR (newSession nR nC rnd H) sevs) \<and>
   ((0 < victoryTweens (pageRun nR ext (newPage nR nC rnd H d) evs) \<or>
     calls (pageRun nR ext (newPage nR nC rnd H d) evs) \<noteq> []) \<longrightarrow>
      Victory \<in> set (timeouts (game (pageRun nR ext (newPage nR nC rnd H d) evs)))) \<and>
   (\<forall>program i. CallExecute program i \<in> set (calls (pageRun nR ext (newPage nR nC rnd H d) evs)) \<longrightarrow>
      i = mkNoirInputs (game (pageRun nR ext (newPage nR nC rnd H d) evs)))"
proof (induction evs rule: rev_induct)
  case Nil
  have "game (newPage nR nC rnd H d) = run nR (newSession nR nC rnd H) []"
    by (simp add: newPage_def run_Nil)
  then show ?case by (auto simp: pageRun_Nil newPage_def)
next
  case (snoc ev evs)
  let ?p = "pageRun nR ext (newPage nR nC rnd H d) evs"
  from snoc.IH obtain sevs where g: "game ?p = run nR (newSession nR nC rnd H) sevs"
    by blast
  from snoc.IH have v: "0 < victoryTweens ?p \<or> calls ?p \<noteq> [] \<Longrightarrow>
      Victory \<in> set (timeouts (game ?p))"
    and c: "\<And>program i. CallExecute program i \<in> set (calls ?p) \<Longrightarrow> i = mkNoirInputs (game ?p)"
    by blast+
  show ?case
  proof (cases "reloaded ?p")
    case True
    then have "pageStep nR ext ?p ev = ?p" by (cases ev) simp_all
    with snoc.IH show ?thesis by (simp add: pageRun_snoc)
  next
    case False
    show ?thesis
    proof (cases ev)
      case (Game e)
      have st: "pageStep nR ext ?p ev = ?p\<lparr>game := step nR (game ?p) e\<rparr>"
        using False Game by simp
      have reach: "step nR (game ?p) e = run nR (newSession nR nC rnd H) (sevs @ [e])"
        by (simp add: g run_snoc)
      have vic: "Victory \<in> set (timeouts (step nR (game ?p) e))"
        if "0 < victoryTweens ?p \<or> calls ?p \<noteq> []"
        using v [OF that] by (rule step_timeouts_mono)
      have inp: "i = mkNoirInputs (step nR (game ?p) e)"
        if "CallExecute program i \<in> set (calls ?p)" for program i
      proof -
        from that have "calls ?p \<noteq> []" by auto
        then have "Victory \<in> set (timeouts (run nR (newSession nR nC rnd H) sevs))"
          using v g by simp
        from step_frozen_inputs [OF this, of e] c [OF that] show ?thesis by (simp add: g)
      qed
      show ?thesis
        unfolding pageRun_snoc st using reach vic inp by auto
    next
      case TimerFires
      show ?thesis
      proof (cases "timersRun ?p < length (timeouts (game ?p))")
        case out: False
        with TimerFires have "pageStep nR ext ?p ev = ?p" by simp
        with snoc.IH show ?thesis by (simp add: pageRun_snoc)
      next
        case inr: True
        show ?thesis
        proof (cases "timeouts (game ?p) ! timersRun ?p")
          case GameOver
          with TimerFires False inr g v c show ?thesis
            by (auto simp: pageRun_snoc)
        next
          case Victory
          with inr have "Victory \<in> set (timeouts (game ?p))" by (metis nth_mem)
          with Victory TimerFires False inr g c show ?thesis
            by (auto simp: pageRun_snoc)
        qed
      qed
    next
      case VictoryTweenDone
      show ?thesis
      proof (cases "victoryTweens ?p = 0")
        case True
        with VictoryTweenDone have "pageStep nR ext ?p ev = ?p" by simp
        with snoc.IH show ?thesis by (simp add: pageRun_snoc)
      next
        case nz: False
        then have "Victory \<in> set (timeouts (game ?p))" using v by simp
        with VictoryTweenDone False nz g c show ?thesis
          by (auto simp: pageRun_snoc dest: pipeline_execute_inputs)
      qed
    qed
  qed
qed

lemma page_after_walk:
  fixes H :: "int list \<Rightarrow> fr"
  assumes "0 < nR" "0 < nC" "\<forall>i<nR. 0 \<le> rnd i \<and> rnd i < 1"
    and s: "s = run nR (newSession nR nC rnd H) (safeClicks nC (secretPath (newSession nR nC rnd H)))"
  shows "mkNoirInputs (run nR s evs) = mkNoirInputs s"
    and "calls (pageRun nR ext (newPage nR nC rnd H d)
           (map Game (safeClicks nC (secretPath (newSession nR nC rnd H))) @ map Game evs1)) = []"
    and "pageRun nR ext (newPage nR nC rnd H d)
           (map Game (safeClicks nC (secretPath (newSession nR nC rnd H))) @ map Game evs1 @
            [TimerFires] @ map Game evs2 @ [VictoryTweenDone]) =
         (newPage nR nC rnd H d)
           \<lparr>game := run nR s (evs1 @ evs2), document := onComplete ext s d,
            calls := fst (proofPipeline ext s), timersRun := 1, victoryTweens := 0\<rparr>"
proof -
  note w = walk_whole_state [OF assms(1,2,3) s]
  show frozen: "mkNoirInputs (run nR s evs) = mkNoirInputs s" for evs
    using run_past_board [OF w(6) w(2), of evs] by (simp add: mkNoirInputs_def run_secret)
  let ?walk = "safeClicks nC (secretPath (newSession nR nC rnd H))"
  let ?p0 = "newPage nR nC rnd H d"
  have p0: "\<not> reloaded ?p0" "game ?p0 = newSession nR nC rnd H" "calls ?p0 = []"
    "document ?p0 = d" "timersRun ?p0 = 0" "victoryTweens ?p0 = 0"
    by (simp_all add: newPage_def)
  have p2: "pageRun nR ext ?p0 (map Game ?walk @ map Game evs1) = ?p0\<lparr>game := run nR s evs1\<rparr>"
    using p0(1,2) by (simp add: pageRun_append pageRun_Game s)
  then show "calls (pageRun nR ext ?p0 (map Game ?walk @ map Game evs1)) = []"
    using p0(3) by simp
  have tm: "timeouts (run nR s evs1) = [Victory]"
    using run_past_board [OF w(6) w(2), of evs1] w(5) by simp
  have p3: "pageStep nR ext (?p0\<lparr>game := run nR s evs1\<rparr>) TimerFires =
      ?p0\<lparr>game := run nR s evs1, timersRun := 1, victoryTweens := 1\<rparr>"
    using p0 tm by simp
  have p4: "pageRun nR ext (?p0\<lparr>game := run nR s evs1, timersRun := 1, victoryTweens := 1\<rparr>)
        (map Game evs2) =
      ?p0\<lparr>game := run nR s (evs1 @ evs2), timersRun := 1, victoryTweens := 1\<rparr>"
    using p0(1) by (simp add: pageRun_Game run_append)
  have p5: "pageStep nR ext
        (?p0\<lparr>game := run nR s (evs1 @ evs2), timersRun := 1, victoryTweens := 1\<rparr>)
        VictoryTweenDone =
      ?p0\<lparr>game := run nR s (evs1 @ evs2), document := onComplete ext s d,
          calls := fst (proofPipeline ext s), timersRun := 1, victoryTweens := 0\<rparr>"
    using p0 onComplete_inputs [OF frozen [of "evs1 @ evs2"], of ext d]
      proofPipeline_inputs [OF frozen [of "evs1 @ evs2"], of ext]
    by simp
  have "pageRun nR ext ?p0
          (map Game ?walk @ map Game evs1 @ [TimerFires] @ map Game evs2 @ [VictoryTweenDone]) =
        pageStep nR ext
          (pageRun nR ext
             (pageStep nR ext (pageRun nR ext ?p0 (map Game ?walk @ map Game evs1)) TimerFires)
             (map Game evs2))
          VictoryTweenDone"
    by (simp add: pageRun_def)
  then show "pageRun nR ext ?p0
          (map Game ?walk @ map Game evs1 @ [TimerFires] @ map Game evs2 @ [VictoryTweenDone]) =
        ?p0\<lparr>game := run nR s (evs1 @ evs2), document := onComplete ext s d,
            calls := fst (proofPipeline ext s), timersRun := 1, victoryTweens := 0\<rparr>"
    by (simp only: p2 p3 p4 p5)
qed

section \<open>The claims\<close>

text \<open>
  C1. If the player clicks the designated safe tile of every row in order, front to back,
  the session reaches the completed state (the victory callback is scheduled, once) and the
  accumulated user path is the secret path, element by element and of the same length.
  Nothing is invoked before the victory callback has run. When it has run and its camera
  move has completed, whatever clicks arrive in between, the pipeline has run once, on
  inputs that are exactly the secret path, the user path (both as decimal strings) and the
  precomputed commitment (as its \<open>toString\<close> gives it): the first call compiles the
  circuit, and when that returns, the second is the witness execution on these inputs; when
  all calls return, the digest shown is that of the proof generated from them. Conversely,
  on any sequence of events whatever, the pipeline is invoked only in a completed session
  whose user path is the secret path, and only with these inputs. The board has at least
  one row and one or two columns, as \<open>tileOffsets\<close> provides (the program has three
  rows and two columns).
\<close>

theorem safe_walk_completes_with_matching_path:
  fixes H :: "int list \<Rightarrow> fr"
  assumes "0 < nR" "0 < nC" "nC \<le> length tileOffsets" "\<forall>i<nR. 0 \<le> rnd i \<and> rnd i < 1"
    and s: "s = run nR (newSession nR nC rnd H) (safeClicks nC (secretPath (newSession nR nC rnd H)))"
    and p: "p = pageRun nR ext (newPage nR nC rnd H d)
                  (map Game (safeClicks nC (secretPath (newSession nR nC rnd H))) @ map Game evs1 @
                   [TimerFires] @ map Game evs2 @ [VictoryTweenDone])"
    and q: "q = pageRun nR ext (newPage nR nC rnd H d) evs"
  shows "completed s \<and> timeouts s = [Victory] \<and>
         length (userPath s) = nR \<and> length (secretPath s) = nR \<and>
         userPath s = secretPath s \<and>
         secretPath s = secretPath (newSession nR nC rnd H) \<and>
         publicHash s = H (secretPath s) \<and>
         mkNoirInputs s =
           \<lparr>secret_path = map bigint_toString (secretPath s),
            user_path = map bigint_toString (secretPath s),
            public_hash = fr_toString (H (secretPath s))\<rparr> \<and>
         game p = run nR s (evs1 @ evs2) \<and> completed (game p) \<and>
         userPath (game p) = secretPath s \<and>
         mkNoirInputs (game p) = mkNoirInputs s \<and>
         calls (pageRun nR ext (newPage nR nC rnd H d)
           (map Game (safeClicks nC (secretPath (newSession nR nC rnd H))) @ map Game evs1)) = [] \<and>
         calls p = fst (proofPipeline ext s) \<and>
         document p = onComplete ext s d \<and>
         hd (calls p) = CallGetCircuit \<and>
         (\<forall>program. getCircuit ext = Inr program \<longrightarrow>
            take 2 (calls p) = [CallGetCircuit, CallExecute program (mkNoirInputs s)]) \<and>
         (\<forall>program witness proofBytes proofHashBuffer.
            getCircuit ext = Inr program \<and>
            noir_execute ext program (mkNoirInputs s) = Inr witness \<and>
            generateProof ext program witness = Inr proofBytes \<and>
            digest ext proofBytes = Inr proofHashBuffer \<longrightarrow>
            calls p = [CallGetCircuit, CallExecute program (mkNoirInputs s),
                       CallGenerateProof program witness, CallDigest proofBytes] \<and>
            proof_hash_value (document p) = toHex proofHashBuffer \<and>
            verify_btn (document p) = verify_btn d @ [toHex proofHashBuffer]) \<and>
         (calls q \<noteq> [] \<longrightarrow>
            completed (game q) \<and> userPath (game q) = secretPath (game q) \<and>
            (\<forall>program i. CallExecute program i \<in> set (calls q) \<longrightarrow> i = mkNoirInputs s))"
proof -
  let ?new = "newSession nR nC rnd H"
  note w = walk_whole_state [OF assms(1,2,4) s]
  note pg = page_after_walk [OF assms(1,2,4) s]
  have comp: "completed s" using w(1,5) by (simp add: completed_def)
  have up: "userPath s = secretPath s" using w(4) [OF assms(3)] w(7) by simp
  have len: "length (secretPath s) = nR" using w(7) by (simp add: secretPath_newSession)
  have ph: "publicHash s = H (secretPath s)" using w(7,8) by simp
  have inputs: "mkNoirInputs s =
      \<lparr>secret_path = map bigint_toString (secretPath s),
       user_path = map bigint_toString (secretPath s),
       public_hash = fr_toString (H (secretPath s))\<rparr>"
    using up ph by (simp add: mkNoirInputs_def)
  have gp: "game p = run nR s (evs1 @ evs2)" "calls p = fst (proofPipeline ext s)"
    "document p = onComplete ext s d"
    unfolding p pg(3) by simp_all
  have frozen: "canClick (game p)" "timeouts (game p) = timeouts s" "userPath (game p) = userPath s"
    using run_past_board [OF w(6) w(2), of "evs1 @ evs2"] w(1) by (simp_all add: gp(1))
  have compp: "completed (game p)" using frozen w(5) by (simp add: completed_def)
  have inp: "mkNoirInputs (game p) = mkNoirInputs s" unfolding gp(1) by (rule pg(1))
  have first: "hd (calls p) = CallGetCircuit" unfolding gp(2) by (rule pipeline_first_call)
  have second: "take 2 (calls p) = [CallGetCircuit, CallExecute program (mkNoirInputs s)]"
    if "getCircuit ext = Inr program" for program
    unfolding gp(2) using that by (rule pipeline_second_call)
  have success: "calls p = [CallGetCircuit, CallExecute program (mkNoirInputs s),
                       CallGenerateProof program witness, CallDigest proofBytes] \<and>
            proof_hash_value (document p) = toHex proofHashBuffer \<and>
            verify_btn (document p) = verify_btn d @ [toHex proofHashBuffer]"
    if "getCircuit ext = Inr program \<and>
        noir_execute ext program (mkNoirInputs s) = Inr witness \<and>
        generateProof ext program witness = Inr proofBytes \<and>
        digest ext proofBytes = Inr proofHashBuffer"
    for program witness proofBytes proofHashBuffer
  proof -
    from that have "proofPipeline ext s =
           ([CallGetCircuit, CallExecute program (mkNoirInputs s),
             CallGenerateProof program witness, CallDigest proofBytes],
            Inr (proofBytes, toHex proofHashBuffer))"
      by (intro pipeline_success) simp_all
    then show ?thesis by (simp add: gp(2,3) onComplete_def)
  qed
  have only: "completed (game q) \<and> userPath (game q) = secretPath (game q) \<and>
      (\<forall>program i. CallExecute program i \<in> set (calls q) \<longrightarrow> i = mkNoirInputs s)"
    if nonempty: "calls q \<noteq> []"
  proof -
    note inv = page_inv [of nR ext nC rnd H d evs, folded q]
    from inv obtain sevs where g: "game q = run nR ?new sevs" by blast
    from inv nonempty have v: "Victory \<in> set (timeouts (run nR ?new sevs))" by (simp add: g)
    note vp = run_victory_path [OF assms(3) v]
    have sq: "secretPath (game q) = secretPath ?new" "publicHash (game q) = publicHash ?new"
      by (simp_all add: g run_secret)
    have "mkNoirInputs (game q) = mkNoirInputs s"
      using vp(2) sq up w(7,8) by (simp add: mkNoirInputs_def g fields_newSession)
    moreover from inv have "\<And>program i. CallExecute program i \<in> set (calls q) \<Longrightarrow>
        i = mkNoirInputs (game q)" by blast
    ultimately show ?thesis using vp sq by (simp add: g)
  qed
  from comp w(5) w(3) len up w(7) ph inputs gp(1) compp frozen(3) inp pg(2) gp(2,3) first
    second success only
  show ?thesis by (simp only: up) blast
qed

theorem safe_walk_completes_with_matching_path_witness:
  "completed (run numRows scenarioSession [Click (Some 1), Click (Some 2), Click (Some 5)]) \<and>
   userPath (run numRows scenarioSession [Click (Some 1), Click (Some 2), Click (Some 5)]) =
     [1, 0, 1] \<and>
   secretPath scenarioSession = [1, 0, 1] \<and>
   completed (game (pageRun numRows checkingProver
      (newPage numRows numCols scenarioRandom scenarioHash blankDom)
      [Game (Click (Some 1)), Game (Click (Some 2)), Game (Click (Some 5)),
       Game (Click (Some 0)), TimerFires, Game TweenDone, VictoryTweenDone])) \<and>
   calls (pageRun numRows checkingProver
      (newPage numRows numCols scenarioRandom scenarioHash blankDom)
      [Game (Click (Some 1)), Game (Click (Some 2)), Game (Click (Some 5)),
       Game (Click (Some 0)), TimerFires, Game TweenDone, VictoryTweenDone]) =
     [CallGetCircuit,
      CallExecute [1]
        \<lparr>secret_path = [''1'', ''0'', ''1''], user_path = [''1'', ''0'', ''1''],
         public_hash = fr_toString (scenarioHash [1, 0, 1])\<rparr>,
      CallGenerateProof [1] [2], CallDigest [3]] \<and>
   proof_hash_value (document (pageRun numRows checkingProver
      (newPage numRows numCols scenarioRandom scenarioHash blankDom)
      [Game (Click (Some 1)), Game (Click (Some 2)), Game (Click (Some 5)),
       Game (Click (Some 0)), TimerFires, Game TweenDone, VictoryTweenDone])) =
     toHex scenarioDigest"
proof -
  let ?S = "run numRows scenarioSession [Click (Some 1), Click (Some 2), Click (Some 5)]"
  let ?P = "pageRun numRows checkingProver
      (newPage numRows numCols scenarioRandom scenarioHash blankDom)
      [Game (Click (Some 1)), Game (Click (Some 2)), Game (Click (Some 5)),
       Game (Click (Some 0)), TimerFires, Game TweenDone, VictoryTweenDone]"
  have P: "?P = pageRun numRows checkingProver
      (newPage numRows numCols scenarioRandom scenarioHash blankDom)
      (map Game (safeClicks numCols (secretPath (newSession numRows numCols scenarioRandom scenarioHash))) @
       map Game [Click (Some 0)] @ [TimerFires] @ map Game [TweenDone] @ [VictoryTweenDone])"
    using scenario_clicks by (simp add: scenarioSession_def)
  have S: "?S = run numRows (newSession numRows numCols scenarioRandom scenarioHash)
      (safeClicks numCols (secretPath (newSession numRows numCols scenarioRandom scenarioHash)))"
    using scenario_clicks by (simp add: scenarioSession_def)
  have Q: "?P = pageRun numRows checkingProver
      (newPage numRows numCols scenarioRandom scenarioHash blankDom)
      [Game (Click (Some 1)), Game (Click (Some 2)), Game (Click (Some 5)),
       Game (Click (Some 0)), TimerFires, Game TweenDone, VictoryTweenDone]"
    by (rule refl)
  note walk = safe_walk_completes_with_matching_path [OF scenario_hypotheses S P Q]
  have sp: "secretPath ?S = [1, 0, 1]"
    using walk scenario_secretPath by (simp add: scenarioSession_def)
  have inputs: "mkNoirInputs ?S =
      \<lparr>secret_path = [''1'', ''0'', ''1''], user_path = [''1'', ''0'', ''1''],
       public_hash = fr_toString (scenarioHash [1, 0, 1])\<rparr>"
    using walk sp by (simp add: bigint_toString_small)
  have ok: "getCircuit checkingProver = Inr [1] \<and>
      noir_execute checkingProver [1] (mkNoirInputs ?S) = Inr [2] \<and>
      generateProof checkingProver [1] [2] = Inr [3] \<and>
      digest checkingProver [3] = Inr scenarioDigest"
    using inputs by (simp add: checkingProver_def)
  from walk ok have "calls ?P = [CallGetCircuit, CallExecute [1] (mkNoirInputs ?S),
                       CallGenerateProof [1] [2], CallDigest [3]] \<and>
            proof_hash_value (document ?P) = toHex scenarioDigest"
    by blast
  moreover from walk have "completed ?S" "userPath ?S = secretPath ?S" "completed (game ?P)"
    by blast+
  ultimately show ?thesis
    using sp scenario_secretPath inputs by simp
qed


text \<open>
  C2. An accepted click on a break tile, whichever row is the expected one, puts the
  session at once into the failed state: the lock is set and the game-over callback is
  scheduled. From then on no event changes the user path, the expected-row cursor or any
  tile, and the session stays failed.
\<close>

theorem break_tile_fails_session:
  assumes acc: "accepted s (Some k)" and brk: "break (tiles s ! k)"
  shows "failed (step nR s (Click (Some k))) \<and>
         failed (run nR (step nR s (Click (Some k))) evs) \<and>
         userPath (run nR (step nR s (Click (Some k))) evs) = userPath (step nR s (Click (Some k))) \<and>
         currentExpectedZ (run nR (step nR s (Click (Some k))) evs) =
           currentExpectedZ (step nR s (Click (Some k))) \<and>
         tiles (run nR (step nR s (Click (Some k))) evs) = tiles (step nR s (Click (Some k)))"
proof -
  let ?s' = "step nR s (Click (Some k))"
  have lock: "\<not> canClick ?s'" using brk by (simp add: click_canClick [OF acc])
  have go: "GameOver \<in> set (timeouts ?s')" using brk by (simp add: click_timeouts [OF acc])
  from lock go have "failed ?s'" by (simp add: failed_def)
  moreover from run_locked [OF lock, of nR evs] go have "failed (run nR ?s' evs)"
    by (simp add: failed_def)
  ultimately show ?thesis using run_locked [OF lock, of nR evs] by simp
qed

theorem break_tile_fails_session_witness:
  "accepted (run numRows scenarioSession [Click (Some 1)]) (Some 3) \<and>
   break (tiles (run numRows scenarioSession [Click (Some 1)]) ! 3) \<and>
   failed (step numRows (run numRows scenarioSession [Click (Some 1)]) (Click (Some 3))) \<and>
   userPath (run numRows
       (step numRows (run numRows scenarioSession [Click (Some 1)]) (Click (Some 3)))
       [Click (Some 4), Click (Some 2), TweenDone]) = [1, 1]"
proof -
  have acc: "accepted (run numRows scenarioSession [Click (Some 1)]) (Some 3)"
    by (simp add: click_eval)
  have brk: "break (tiles (run numRows scenarioSession [Click (Some 1)]) ! 3)"
    by (simp add: click_eval)
  have up: "userPath (step numRows (run numRows scenarioSession [Click (Some 1)])
      (Click (Some 3))) = [1, 1]"
    by (simp add: click_eval)
  from break_tile_fails_session [OF acc brk, of numRows "[Click (Some 4), Click (Some 2), TweenDone]"]
  show ?thesis using acc brk up by simp
qed

text \<open>
  C3. In every state a session can reach, a click that hits no tile, or that hits a tile
  whose row is not the expected one (its depth differs from the cursor), leaves the whole
  session unchanged: user path, cursor, lock, tiles and everything else.
\<close>

theorem ignored_click_changes_nothing:
  assumes s: "s = run nR (newSession nR nC rnd H) evs"
    and hit: "intersects s hit = None \<or>
              (\<exists>k. intersects s hit = Some k \<and> position_z (tiles s ! k) \<noteq> currentExpectedZ s)"
  shows "step nR s (Click hit) = s"
proof (cases "accepted s hit")
  case False
  then show ?thesis by (simp add: click_rejected)
next
  case True
  then obtain k where k: "hit = Some k" "k < length (tiles s)" "canClick s"
    "\<bar>position_z (tiles s ! k) - currentExpectedZ s\<bar> \<le> 1 / 10"
    using accepted_SomeD by blast
  have lay: "layout s = layout (newSession nR nC rnd H)"
    unfolding s by (rule run_layout)
  from lay k(2) obtain i j where z: "position_z (tiles s ! k) = rowZ i"
    by (rule board_tile)
  have cur: "currentExpectedZ s = rowZ (length (userPath s))"
    using run_inv [of nR nC rnd H evs] k(3) by (simp add: s)
  from k(4) have "i = length (userPath s)"
    unfolding z cur by (simp only: rowZ_near_iff)
  with z cur have "position_z (tiles s ! k) = currentExpectedZ s" by simp
  moreover have "intersects s hit = Some k" using k(1,2) by (simp add: intersects_def)
  ultimately show ?thesis using hit by simp
qed

theorem ignored_click_changes_nothing_witness:
  "intersects (run numRows scenarioSession [Click (Some 1)]) (Some 4) = Some 4 \<and>
   position_z (tiles (run numRows scenarioSession [Click (Some 1)]) ! 4) \<noteq>
     currentExpectedZ (run numRows scenarioSession [Click (Some 1)]) \<and>
   step numRows (run numRows scenarioSession [Click (Some 1)]) (Click (Some 4)) =
     run numRows scenarioSession [Click (Some 1)]"
proof -
  have hit: "intersects (run numRows scenarioSession [Click (Some 1)]) (Some 4) = Some 4"
    by (simp add: click_eval)
  have row: "position_z (tiles (run numRows scenarioSession [Click (Some 1)]) ! 4) \<noteq>
     currentExpectedZ (run numRows scenarioSession [Click (Some 1)])"
    by (simp add: click_eval)
  from hit row have
    "intersects (run numRows scenarioSession [Click (Some 1)]) (Some 4) = None \<or>
     (\<exists>k. intersects (run numRows scenarioSession [Click (Some 1)]) (Some 4) = Some k \<and>
          position_z (tiles (run numRows scenarioSession [Click (Some 1)]) ! k) \<noteq>
            currentExpectedZ (run numRows scenarioSession [Click (Some 1)]))"
    by simp
  from ignored_click_changes_nothing [OF scenarioSession_def [THEN arg_cong, of "\<lambda>s. run numRows s [Click (Some 1)]"] this]
  show ?thesis using hit row by simp
qed

text \<open>
  C4, as the code has it. The lock is set and released within one run of the click
  handler. After an accepted click on a safe tile the handler returns with the lock
  released while the camera move it started is in flight, and a click on any tile of the
  new expected row is accepted. Only after an accepted click on a break tile the lock
  stays set, and then no event changes the user path, the cursor or a tile.
\<close>

theorem lock_released_within_handler:
  assumes acc: "accepted s (Some k)"
  shows "cameraTweens (step nR s (Click (Some k))) =
           cameraTweens s @ [position_z (tiles s ! k) + 6] \<and>
         canClick (step nR s (Click (Some k))) = (\<not> break (tiles s ! k)) \<and>
         (\<not> break (tiles s ! k) \<longrightarrow>
            (\<forall>k'. k' < length (tiles s) \<and>
                  position_z (tiles s ! k') = currentExpectedZ (step nR s (Click (Some k))) \<longrightarrow>
                  accepted (step nR s (Click (Some k))) (Some k'))) \<and>
         (break (tiles s ! k) \<longrightarrow>
            (\<forall>evs. userPath (run nR (step nR s (Click (Some k))) evs) =
                     userPath (step nR s (Click (Some k))) \<and>
                   currentExpectedZ (run nR (step nR s (Click (Some k))) evs) =
                     currentExpectedZ (step nR s (Click (Some k))) \<and>
                   tiles (run nR (step nR s (Click (Some k))) evs) =
                     tiles (step nR s (Click (Some k)))))"
proof -
  let ?s' = "step nR s (Click (Some k))"
  from acc have k: "k < length (tiles s)" using accepted_SomeD by blast
  have tw: "cameraTweens ?s' = cameraTweens s @ [position_z (tiles s ! k) + 6]"
    by (simp add: click_cameraTweens [OF acc])
  have cc: "canClick ?s' = (\<not> break (tiles s ! k))"
    by (simp add: click_canClick [OF acc])
  have safe: "accepted ?s' (Some k')"
    if "\<not> break (tiles s ! k)" "k' < length (tiles s)"
      "position_z (tiles s ! k') = currentExpectedZ ?s'" for k'
  proof (rule accepted_SomeI)
    show "canClick ?s'" using cc that(1) by simp
    show "k' < length (tiles ?s')" using that(2) by (simp add: click_tiles [OF acc])
    have "position_z (tiles ?s' ! k') = position_z (tiles s ! k')"
      using that(2) k by (simp add: click_tiles [OF acc] nth_list_update)
    then show "\<bar>position_z (tiles ?s' ! k') - currentExpectedZ ?s'\<bar> \<le> 1 / 10"
      using that(3) by simp
  qed
  have locked: "userPath (run nR ?s' evs) = userPath ?s' \<and>
      currentExpectedZ (run nR ?s' evs) = currentExpectedZ ?s' \<and>
      tiles (run nR ?s' evs) = tiles ?s'" if "break (tiles s ! k)" for evs
    using run_locked [of ?s' nR evs] cc that by simp
  show ?thesis using tw cc safe locked by blast
qed

theorem lock_released_within_handler_witness:
  "accepted scenarioSession (Some 1) \<and>
   cameraTweens (step numRows scenarioSession (Click (Some 1))) = [6] \<and>
   canClick (step numRows scenarioSession (Click (Some 1))) \<and>
   accepted (step numRows scenarioSession (Click (Some 1))) (Some 2)"
proof -
  have acc: "accepted scenarioSession (Some 1)"
    by (simp add: click_eval)
  have safe: "\<not> break (tiles scenarioSession ! 1)" "2 < length (tiles scenarioSession)"
    "position_z (tiles scenarioSession ! 2) =
       currentExpectedZ (step numRows scenarioSession (Click (Some 1)))"
    "position_z (tiles scenarioSession ! 1) = 0" "cameraTweens scenarioSession = []"
    by (simp_all add: click_eval)
  from lock_released_within_handler [OF acc, of numRows] show ?thesis
    using acc safe by simp
qed

text \<open>
  C4, as stated, fails: in the scenario the click on the safe tile of row 0 is accepted
  and starts a camera move; with that move still in flight (no completion event between
  the two clicks) the click on the safe tile of row 1 is accepted and extends the user
  path and moves the cursor.
\<close>

theorem click_during_transition_counterexample:
  "accepted scenarioSession (Some 1) \<and>
   cameraTweens (run numRows scenarioSession [Click (Some 1)]) = [6] \<and>
   accepted (run numRows scenarioSession [Click (Some 1)]) (Some 2) \<and>
   userPath (run numRows scenarioSession [Click (Some 1)]) = [1] \<and>
   userPath (run numRows scenarioSession [Click (Some 1), Click (Some 2)]) = [1, 0] \<and>
   currentExpectedZ (run numRows scenarioSession [Click (Some 1)]) = - (5 / 2) \<and>
   currentExpectedZ (run numRows scenarioSession [Click (Some 1), Click (Some 2)]) = - 5"
  by (simp add: click_eval)

text \<open>
  C5. For any number of rows and at least one column (so for rowCount at least 1 and
  columnCount at least 2), with every draw in [0, 1), the board build produces a secret
  path of length rowCount with every element in [0, columnCount); every row has
  columnCount tiles, and exactly one of them is not a break tile: the one whose column
  index is the row's element of the secret path.
\<close>

theorem path_generation_one_safe_tile_per_row:
  fixes H :: "int list \<Rightarrow> fr"
  assumes nC: "0 < nC" and rnd: "\<forall>i<nR. 0 \<le> rnd i \<and> rnd i < 1"
  shows "length (secretPath (newSession nR nC rnd H)) = nR \<and>
         (\<forall>v \<in> set (secretPath (newSession nR nC rnd H)). 0 \<le> v \<and> v < int nC) \<and>
         (\<forall>i<nR.
            length (filter (\<lambda>t. position_z t = rowZ i) (tiles (newSession nR nC rnd H))) = nC \<and>
            map colIndex (filter (\<lambda>t. position_z t = rowZ i \<and> \<not> break t)
                           (tiles (newSession nR nC rnd H))) =
              [nat (secretPath (newSession nR nC rnd H) ! i)])"
proof -
  let ?s0 = "newSession nR nC rnd H"
  have len: "length (secretPath ?s0) = nR" by (simp add: secretPath_newSession)
  have rng: "0 \<le> v \<and> v < int nC" if "v \<in> set (secretPath ?s0)" for v
  proof -
    from that obtain i where "i < nR" "v = safeIndex nC (rnd i)"
      by (auto simp: secretPath_newSession)
    then show ?thesis using rnd nC safeIndex_range [of "rnd i" nC] by simp
  qed
  have row: "length (filter (\<lambda>t. position_z t = rowZ i) (tiles ?s0)) = nC \<and>
      map colIndex (filter (\<lambda>t. position_z t = rowZ i \<and> \<not> break t) (tiles ?s0)) =
        [nat (secretPath ?s0 ! i)]" if i: "i < nR" for i
  proof -
    have "filter (\<lambda>t. position_z t = rowZ i \<and> \<not> break t) (tiles ?s0) =
          filter (\<lambda>t. \<not> break t) (filter (\<lambda>t. position_z t = rowZ i) (tiles ?s0))"
      by (simp add: conj_commute)
    also have "\<dots> = filter (\<lambda>t. \<not> break t) (rowTiles nC i (rnd i))"
      by (simp only: row_of_board [OF i])
    finally have "map colIndex (filter (\<lambda>t. position_z t = rowZ i \<and> \<not> break t) (tiles ?s0)) =
        [nat (safeIndex nC (rnd i))]"
      using rnd i nC safeIndex_range [of "rnd i" nC] by (simp only: safe_of_row)
    moreover have "secretPath ?s0 ! i = safeIndex nC (rnd i)"
      using i by (simp add: secretPath_newSession)
    ultimately show ?thesis by (simp add: row_of_board [OF i] length_rowTiles)
  qed
  from len rng row show ?thesis by blast
qed

theorem path_generation_one_safe_tile_per_row_witness:
  "length (secretPath scenarioSession) = numRows \<and>
   0 \<le> secretPath scenarioSession ! 1 \<and> secretPath scenarioSession ! 1 < int numCols \<and>
   length (filter (\<lambda>t. position_z t = rowZ 1) (tiles scenarioSession)) = numCols \<and>
   map colIndex (filter (\<lambda>t. position_z t = rowZ 1 \<and> \<not> break t) (tiles scenarioSession)) = [0]"
proof -
  note gen =
    path_generation_one_safe_tile_per_row [OF scenario_hypotheses(2,4), of scenarioHash,
      folded scenarioSession_def]
  have "(1::nat) < numRows" by (simp add: numRows_def)
  moreover have "secretPath scenarioSession ! 1 \<in> set (secretPath scenarioSession)"
    by (simp add: scenario_secretPath)
  ultimately show ?thesis
    using gen by (auto simp: scenario_secretPath)
qed

text \<open>
  C6. On the program's board (at most two columns, as \<open>tileOffsets\<close> provides), in
  every reachable state, an accepted click appends to the user path the column index the
  clicked tile was given when the board was built.
\<close>

theorem appended_value_is_column_index:
  assumes s: "s = run nR (newSession nR nC rnd H) evs"
    and nC: "nC \<le> length tileOffsets"
    and acc: "accepted s (Some k)"
  shows "userPath (step nR s (Click (Some k))) = userPath s @ [int (colIndex (tiles s ! k))]"
proof -
  from acc have k: "k < length (tiles s)" using accepted_SomeD by blast
  have lay: "layout s = layout (newSession nR nC rnd H)"
    unfolding s by (rule run_layout)
  from lay k obtain i j where j: "j < nC"
    "position_x (tiles s ! k) = (if j < length tileOffsets then Some (tileOffsets ! j) else None)"
    "colIndex (tiles s ! k) = j"
    by (rule board_tile)
  from j(1) nC have "j < length tileOffsets" by simp
  then show ?thesis
    using direction_colIndex [of j] by (simp add: click_userPath [OF acc] j(2,3))
qed

theorem appended_value_is_column_index_witness:
  "accepted (run numRows scenarioSession [Click (Some 1)]) (Some 2) \<and>
   colIndex (tiles (run numRows scenarioSession [Click (Some 1)]) ! 2) = 0 \<and>
   userPath (step numRows (run numRows scenarioSession [Click (Some 1)]) (Click (Some 2))) =
     [1, 0]"
proof -
  have acc: "accepted (run numRows scenarioSession [Click (Some 1)]) (Some 2)"
    by (simp add: click_eval)
  have col: "colIndex (tiles (run numRows scenarioSession [Click (Some 1)]) ! 2) = 0"
    "userPath (run numRows scenarioSession [Click (Some 1)]) = [1]"
    by (simp_all add: click_eval)
  have s: "run numRows scenarioSession [Click (Some 1)] =
           run numRows (newSession numRows numCols scenarioRandom scenarioHash) [Click (Some 1)]"
    by (simp only: scenarioSession_def)
  from appended_value_is_column_index [OF s scenario_hypotheses(3) acc] show ?thesis
    using acc col by simp
qed

text \<open>
  C7. In every reachable state the user path has at most as many elements as the board has
  rows. A click extends it by exactly one element when it is accepted and leaves it as it
  is when it is rejected; the elements already there stay; no other event touches it.
\<close>

theorem userPath_one_per_accepted_click:
  "length (userPath (run nR (newSession nR nC rnd H) evs)) \<le> nR \<and>
   length (userPath (step nR (run nR (newSession nR nC rnd H) evs) (Click hit))) =
     length (userPath (run nR (newSession nR nC rnd H) evs)) +
       (if accepted (run nR (newSession nR nC rnd H) evs) hit then 1 else 0) \<and>
   take (length (userPath (run nR (newSession nR nC rnd H) evs)))
     (userPath (step nR (run nR (newSession nR nC rnd H) evs) (Click hit))) =
     userPath (run nR (newSession nR nC rnd H) evs) \<and>
   userPath (step nR (run nR (newSession nR nC rnd H) evs) TweenDone) =
     userPath (run nR (newSession nR nC rnd H) evs)"
proof -
  let ?s = "run nR (newSession nR nC rnd H) evs"
  have "length (userPath ?s) \<le> nR" using run_inv [of nR nC rnd H evs] by simp
  moreover have "length (userPath (step nR ?s (Click hit))) =
      length (userPath ?s) + (if accepted ?s hit then 1 else 0)"
    by (simp add: step_userPath_length del: step.simps)
  moreover have "take (length (userPath ?s)) (userPath (step nR ?s (Click hit))) = userPath ?s"
  proof (cases "accepted ?s hit")
    case True
    then obtain k where "hit = Some k" using accepted_SomeD by blast
    with True show ?thesis by (simp add: click_userPath)
  next
    case False
    then show ?thesis by (simp add: click_rejected)
  qed
  moreover have "userPath (step nR ?s TweenDone) = userPath ?s" by simp
  ultimately show ?thesis by blast
qed

theorem userPath_one_per_accepted_click_witness:
  "length (userPath (run numRows scenarioSession [Click (Some 1), Click (Some 0)])) \<le> numRows \<and>
   accepted (run numRows scenarioSession [Click (Some 1), Click (Some 0)]) (Some 2) \<and>
   length (userPath (step numRows (run numRows scenarioSession [Click (Some 1), Click (Some 0)])
     (Click (Some 2)))) =
   length (userPath (run numRows scenarioSession [Click (Some 1), Click (Some 0)])) + 1"
proof -
  have acc: "accepted (run numRows scenarioSession [Click (Some 1), Click (Some 0)]) (Some 2)"
    by (simp add: click_eval)
  from userPath_one_per_accepted_click [of numRows numCols scenarioRandom scenarioHash
      "[Click (Some 1), Click (Some 0)]" "Some 2", folded scenarioSession_def]
  show ?thesis using acc by simp
qed

text \<open>
  C8, as the code has it. The pasted text is first trimmed of surrounding white space and
  line terminators. If nothing is left, the listener alerts that the proof hash must be
  pasted first and shows no verdict. Otherwise the verdict is "valid" exactly when the
  trimmed text equals the displayed digest up to letter case, and "invalid" for every
  other text. The displayed digest is the \<open>toHex\<close> of the digest bytes.
\<close>

theorem verify_compares_trimmed_input_up_to_case:
  assumes "lowersBasicLatin toLowerCase"
  shows "verify_result (verifyClick toLowerCase (toHex bytes) inputValue d) =
     (if trim inputValue = [] then verify_result d
      else if equalUpToCase (trim inputValue) (utf16 (toHex bytes)) then Some ValidProofHash
      else Some InvalidProofHash) \<and>
   alerts (verifyClick toLowerCase (toHex bytes) inputValue d) =
     (if trim inputValue = [] then alerts d @ [PasteTheProofHashFirst] else alerts d)"
proof (cases "trim inputValue = []")
  case True
  then show ?thesis by (simp add: verifyClick_def)
next
  case False
  have "(toLowerCase (trim inputValue) = toLowerCase (utf16 (toHex bytes))) =
        equalUpToCase (trim inputValue) (utf16 (toHex bytes))"
    using assms by (rule lower_eq_digest_iff)
  with False show ?thesis by (simp add: verifyClick_def Let_def)
qed

theorem verify_compares_trimmed_input_up_to_case_witness:
  "lowersBasicLatin basicLatinToLowerCase \<and>
   trim (0x00A0 # map (\<lambda>u. if u = 0x62 then 0x42 else u) (utf16 (toHex scenarioDigest)) @ [0x2028]) =
     map (\<lambda>u. if u = 0x62 then 0x42 else u) (utf16 (toHex scenarioDigest)) \<and>
   verify_result (verifyClick basicLatinToLowerCase (toHex scenarioDigest)
     (0x00A0 # map (\<lambda>u. if u = 0x62 then 0x42 else u) (utf16 (toHex scenarioDigest)) @ [0x2028])
     blankDom) = Some ValidProofHash \<and>
   verify_result (verifyClick basicLatinToLowerCase (toHex scenarioDigest) [0x00A0, 0xFEFF] blankDom) =
     verify_result blankDom \<and>
   alerts (verifyClick basicLatinToLowerCase (toHex scenarioDigest) [0x00A0, 0xFEFF] blankDom) =
     alerts blankDom @ [PasteTheProofHashFirst]"
proof -
  note v = verify_compares_trimmed_input_up_to_case [OF lowersBasicLatin_basic, of scenarioDigest]
  from v [of "0x00A0 # map (\<lambda>u. if u = 0x62 then 0x42 else u) (utf16 (toHex scenarioDigest)) @ [0x2028]" blankDom]
  have "verify_result (verifyClick basicLatinToLowerCase (toHex scenarioDigest)
     (0x00A0 # map (\<lambda>u. if u = 0x62 then 0x42 else u) (utf16 (toHex scenarioDigest)) @ [0x2028])
     blankDom) = Some ValidProofHash"
    by (simp add: scenario_paste)
  moreover from v [of "[0x00A0, 0xFEFF]" blankDom]
  have "verify_result (verifyClick basicLatinToLowerCase (toHex scenarioDigest) [0x00A0, 0xFEFF] blankDom) =
     verify_result blankDom \<and>
   alerts (verifyClick basicLatinToLowerCase (toHex scenarioDigest) [0x00A0, 0xFEFF] blankDom) =
     alerts blankDom @ [PasteTheProofHashFirst]"
    by (simp add: scenario_paste)
  ultimately show ?thesis
    using lowersBasicLatin_basic scenario_paste(1) by blast
qed

text \<open>
  C8, as stated, fails twice: the digest pasted with a leading blank is not equal to the
  digest up to letter case, yet the verdict is "valid"; and an empty paste differs from
  the digest, yet no verdict, so no "invalid", is shown. Both pastes are Basic Latin,
  where the case conversion is the one of that block.
\<close>

theorem verify_counterexample:
  "verify_result (verifyClick basicLatinToLowerCase (toHex scenarioDigest)
      (0x20 # utf16 (toHex scenarioDigest)) blankDom) = Some ValidProofHash \<and>
   \<not> equalUpToCase (0x20 # utf16 (toHex scenarioDigest)) (utf16 (toHex scenarioDigest)) \<and>
   verify_result (verifyClick basicLatinToLowerCase (toHex scenarioDigest) [] blankDom) = None \<and>
   \<not> equalUpToCase [] (utf16 (toHex scenarioDigest))"
proof -
  have "verify_result (verifyClick basicLatinToLowerCase (toHex scenarioDigest)
      (0x20 # utf16 (toHex scenarioDigest)) blankDom) = Some ValidProofHash"
    by (simp add: verifyClick_def scenario_paste Let_def)
  moreover have "\<not> equalUpToCase (0x20 # utf16 (toHex scenarioDigest)) (utf16 (toHex scenarioDigest))"
    unfolding equalUpToCase_def by (auto dest: list_all2_lengthD)
  moreover have "verify_result (verifyClick basicLatinToLowerCase (toHex scenarioDigest) [] blankDom) = None"
    by (simp add: verifyClick_def scenario_paste blankDom_def)
  moreover have "\<not> equalUpToCase [] (utf16 (toHex scenarioDigest))"
    using scenario_paste(6) by (simp add: equalUpToCase_def)
  ultimately show ?thesis by blast
qed

text \<open>
  C9. If circuit compilation, witness execution, proof generation or the digest throws,
  the callback only logs the thrown value to the console: no alert is raised, the digest
  display, the copy buttons and their listeners, and the verify control are as they were.
\<close>

theorem pipeline_failure_is_logged_only:
  assumes "getCircuit ext = Inl e \<or>
     (\<exists>program. getCircuit ext = Inr program \<and>
        (noir_execute ext program (mkNoirInputs s) = Inl e \<or>
         (\<exists>witness. noir_execute ext program (mkNoirInputs s) = Inr witness \<and>
            (generateProof ext program witness = Inl e \<or>
             (\<exists>proofBytes. generateProof ext program witness = Inr proofBytes \<and>
                digest ext proofBytes = Inl e)))))"
  shows "onComplete ext s d = d\<lparr>victory_text_opacity := 1, console_error := console_error d @ [e]\<rparr> \<and>
         console_error (onComplete ext s d) = console_error d @ [e] \<and>
         alerts (onComplete ext s d) = alerts d \<and>
         proof_hash_value (onComplete ext s d) = proof_hash_value d \<and>
         copy_buttons_display (onComplete ext s d) = copy_buttons_display d \<and>
         copy_proof (onComplete ext s d) = copy_proof d \<and>
         copy_proof_hash_bottom (onComplete ext s d) = copy_proof_hash_bottom d \<and>
         copy_proof_hash (onComplete ext s d) = copy_proof_hash d \<and>
         verify_btn (onComplete ext s d) = verify_btn d \<and>
         verify_result (onComplete ext s d) = verify_result d"
proof -
  from assms have "snd (proofPipeline ext s) = Inl e"
    by (simp only: pipeline_failure_cases)
  then show ?thesis by (simp add: onComplete_def Let_def)
qed

theorem pipeline_failure_is_logged_only_witness:
  "generateProof failingProver [1] [2] = Inl (Exn ''generateProof'') \<and>
   onComplete failingProver scenarioSession blankDom =
     blankDom\<lparr>victory_text_opacity := 1, console_error := [Exn ''generateProof'']\<rparr> \<and>
   proof_hash_value (onComplete failingProver scenarioSession blankDom) = [] \<and>
   verify_btn (onComplete failingProver scenarioSession blankDom) = []"
proof -
  have "getCircuit failingProver = Inl (Exn ''generateProof'') \<or>
     (\<exists>program. getCircuit failingProver = Inr program \<and>
        (noir_execute failingProver program (mkNoirInputs scenarioSession) =
           Inl (Exn ''generateProof'') \<or>
         (\<exists>witness. noir_execute failingProver program (mkNoirInputs scenarioSession) =
              Inr witness \<and>
            (generateProof failingProver program witness = Inl (Exn ''generateProof'') \<or>
             (\<exists>proofBytes. generateProof failingProver program witness = Inr proofBytes \<and>
                digest failingProver proofBytes = Inl (Exn ''generateProof''))))))"
    by (simp add: failingProver_def)
  from pipeline_failure_is_logged_only [OF this, of blankDom] show ?thesis
    by (simp add: failingProver_def blankDom_def)
qed

text \<open>
  C10. After the safe tile of the last row is clicked the session is completed with the
  click guard enabled, not locked. The cursor lies beyond the depth of every tile of the
  board, and whatever events follow, the guard stays enabled while the user path, the
  cursor and all tiles stay as they are.
\<close>

theorem completed_session_ignores_clicks:
  fixes H :: "int list \<Rightarrow> fr"
  assumes "0 < nR" "0 < nC" "\<forall>i<nR. 0 \<le> rnd i \<and> rnd i < 1"
    and s: "s = run nR (newSession nR nC rnd H) (safeClicks nC (secretPath (newSession nR nC rnd H)))"
  shows "completed s \<and> canClick s \<and>
         (\<forall>k<length (tiles s). currentExpectedZ s < position_z (tiles s ! k)) \<and>
         canClick (run nR s evs) \<and>
         userPath (run nR s evs) = userPath s \<and>
         currentExpectedZ (run nR s evs) = currentExpectedZ s \<and>
         tiles (run nR s evs) = tiles s"
proof -
  note w = walk_whole_state [OF assms(1,2,3) s]
  have "completed s" using w(1,5) by (simp add: completed_def)
  moreover have "currentExpectedZ s < position_z (tiles s ! k)" if "k < length (tiles s)" for k
  proof -
    from w(6) that obtain i j where "i < nR" "position_z (tiles s ! k) = rowZ i"
      by (rule board_tile)
    then show ?thesis using w(2) by (simp add: rowZ_less)
  qed
  ultimately show ?thesis
    using w(1) run_past_board [OF w(6) w(2), of evs] by simp
qed

theorem completed_session_ignores_clicks_witness:
  "completed (run numRows scenarioSession [Click (Some 1), Click (Some 2), Click (Some 5)]) \<and>
   canClick (run numRows scenarioSession [Click (Some 1), Click (Some 2), Click (Some 5)]) \<and>
   userPath (run numRows
      (run numRows scenarioSession [Click (Some 1), Click (Some 2), Click (Some 5)])
      [Click (Some 5), Click (Some 0), TweenDone, Click None]) =
   userPath (run numRows scenarioSession [Click (Some 1), Click (Some 2), Click (Some 5)])"
proof -
  note frozen =
    completed_session_ignores_clicks [OF scenario_hypotheses(1,2,4) refl, of scenarioHash
      "[Click (Some 5), Click (Some 0), TweenDone, Click None]",
      folded scenarioSession_def, unfolded scenario_clicks]
  from frozen show ?thesis by simp
qed

end
